theory Spec2Isabelle
  imports Complex_Main "HOL-Library.Word"
begin

section \<open>Go run-time failures\<close>

text \<open>
  A Go panic ends the call without a result. Every function of the model that can panic
  returns \<open>go_panic + 'a\<close>, with \<open>Inl\<close> for the panic. \<open>Deadlock\<close> stands for a receive on
  a channel that no task will ever send to: the call does not return either.
\<close>

datatype go_panic =
    IndexOutOfRange
  | NilDereference
  | NullRunContext
  | Unreachable
  | CloseOfClosedChannel
  | SliceBoundsOutOfRange
  | Deadlock

text \<open>An \<open>error\<close> value of Go, identified by its message.\<close>

datatype go_error = GoError string

fun Error :: "go_error \<Rightarrow> string" where
  "Error (GoError msg) = msg"

text \<open>Sequencing of computations that may panic.\<close>

fun bind_panic :: "go_panic + 'a \<Rightarrow> ('a \<Rightarrow> go_panic + 'b) \<Rightarrow> go_panic + 'b" where
  "bind_panic (Inl p) f = Inl p"
| "bind_panic (Inr x) f = f x"

section \<open>Verdict algebra (runner)\<close>

text \<open>The local slice \<open>verdictList\<close> of \<open>worseVerdict\<close>, worst verdict first.\<close>

definition verdictList :: "string list" where
  "verdictList =
     [''JE'', ''CE'', ''MLE'', ''RFE'', ''RTE'', ''TLE'', ''OLE'', ''WA'', ''PA'', ''AC'', ''OK'']"

text \<open>
  \<open>sliceIndex(limit, predicate)\<close>: the loop \<open>for i := 0; i < limit; i++\<close>, entered at
  \<open>i\<close>; the first index that satisfies the predicate, \<open>-1\<close> when none does.
\<close>

function sliceIndex_loop :: "int \<Rightarrow> int \<Rightarrow> (int \<Rightarrow> bool) \<Rightarrow> int" where
  "sliceIndex_loop i limit predicate =
     (if i < limit
      then (if predicate i then i else sliceIndex_loop (i + 1) limit predicate)
      else - 1)"
  by pat_completeness auto
termination
  by (relation "measure (\<lambda>(i, limit, predicate). nat (limit - i))") auto

declare sliceIndex_loop.simps [simp del]

definition sliceIndex :: "int \<Rightarrow> (int \<Rightarrow> bool) \<Rightarrow> int" where
  "sliceIndex limit predicate = sliceIndex_loop 0 limit predicate"

text \<open>The helper \<open>min\<close> of the runner package, on Go's \<open>int\<close>.\<close>

definition min_go :: "int \<Rightarrow> int \<Rightarrow> int" where
  "min_go a b = (if a < b then a else b)"

text \<open>Indexing a slice: Go panics when the index is negative or not below the length.\<close>

definition index_go :: "'a list \<Rightarrow> int \<Rightarrow> go_panic + 'a" where
  "index_go xs i = (if 0 \<le> i \<and> i < int (length xs) then Inr (xs ! nat i) else Inl IndexOutOfRange)"

text \<open>
  \<open>worseVerdict(a, b)\<close>: both verdicts are looked up in \<open>verdictList\<close> and the slice is
  indexed at the smaller position. The predicate passed to \<open>sliceIndex\<close> reads
  \<open>verdictList[i]\<close> only for \<open>0 \<le> i < len(verdictList)\<close>.
\<close>

definition worseVerdict :: "string \<Rightarrow> string \<Rightarrow> go_panic + string" where
  "worseVerdict a b =
     (let idxA = sliceIndex (int (length verdictList)) (\<lambda>i. verdictList ! nat i = a);
          idxB = sliceIndex (int (length verdictList)) (\<lambda>i. verdictList ! nat i = b)
      in index_go verdictList (min_go idxA idxB))"

text \<open>
  Folding \<open>worseVerdict\<close> over a sequence of case verdicts, from a starting verdict, as the
  execution loop of \<open>Grade\<close> does with \<open>runResult.Verdict\<close>.
\<close>

fun worseVerdicts :: "string \<Rightarrow> string list \<Rightarrow> go_panic + string" where
  "worseVerdicts v [] = Inr v"
| "worseVerdicts v (c # cs) = bind_panic (worseVerdict v c) (\<lambda>w. worseVerdicts w cs)"

text \<open>Position of a verdict in \<open>verdictList\<close> (specification side): the first position
  at which it occurs, the length of the list when it does not occur.\<close>

fun first_pos :: "'a list \<Rightarrow> 'a \<Rightarrow> nat" where
  "first_pos [] a = 0"
| "first_pos (x # xs) a = (if x = a then 0 else Suc (first_pos xs a))"

definition verdictIndex :: "string \<Rightarrow> nat" where
  "verdictIndex a = first_pos verdictList a"

section \<open>Problem settings (common/problemsettings.go)\<close>

text \<open>
  The settings of a problem. Go's \<open>int64\<close> is a 64-bit word read as two's complement,
  \<open>float64\<close> is modelled by \<open>real\<close>: the code embedded here compares scores with the
  constants 0 and 1 and adds and multiplies them, and no statement below depends on
  rounding. The interactive settings only feed the binary plan of \<open>Grade\<close>, which is a
  parameter of the model.
\<close>

record LimitsSettings =
  ExtraWallTime :: "64 word"
  MemoryLimit :: "64 word"
  OutputLimit :: "64 word"
  OverallWallTimeLimit :: "64 word"
  TimeLimit :: "64 word"

record ValidatorSettings =
  v_Lang :: "string option"
  v_Name :: string
  v_Tolerance :: "real option"
  v_Limits :: "LimitsSettings option"

record CaseSettings =
  cs_Name :: string
  cs_Weight :: real

record GroupSettings =
  gs_Cases :: "CaseSettings list"
  gs_Name :: string
  gs_Weight :: real

record ProblemSettings =
  Cases :: "GroupSettings list"
  Limits :: LimitsSettings
  Slow :: bool
  Validator :: ValidatorSettings

section \<open>Runner: the output-only decoder\<close>

text \<open>\<open>strings.HasSuffix\<close>.\<close>

definition HasSuffix :: "string \<Rightarrow> string \<Rightarrow> bool" where
  "HasSuffix s suffix \<longleftrightarrow>
     length s \<ge> length suffix \<and> drop (length s - length suffix) s = suffix"

text \<open>
  \<open>strings.LastIndex(s, substr)\<close>: the index of the last instance of \<open>substr\<close> in \<open>s\<close>, or
  \<open>-1\<close>. \<open>LastIndex_upto k\<close> looks at the positions \<open>k, k - 1, \<dots>, 0\<close>.
\<close>

fun LastIndex_upto :: "nat \<Rightarrow> string \<Rightarrow> string \<Rightarrow> int" where
  "LastIndex_upto 0 s substr = (if take (length substr) s = substr then 0 else - 1)"
| "LastIndex_upto (Suc k) s substr =
     (if take (length substr) (drop (Suc k) s) = substr then int (Suc k)
      else LastIndex_upto k s substr)"

definition LastIndex :: "string \<Rightarrow> string \<Rightarrow> int" where
  "LastIndex s substr =
     (if length s < length substr then - 1
      else LastIndex_upto (length s - length substr) s substr)"

text \<open>
  A file of the zip archive (\<open>zip.File\<close>): the name and the uncompressed size of its header,
  and what \<open>f.Open()\<close> followed by \<open>io.Copy\<close> yields, the contents or an error.
\<close>

record zip_entry =
  ze_Name :: string
  ze_UncompressedSize64 :: "64 word"
  ze_contents :: "go_error + string"

text \<open>
  The two library calls of \<open>parseOutputOnlyFile\<close>: \<open>dataurl.DecodeString\<close>, which gives the
  payload of a data URL, and \<open>zip.NewReader\<close>, which gives the files of the archive.
\<close>

record decoders =
  DecodeString :: "string \<Rightarrow> go_error + string"
  NewReader :: "string \<Rightarrow> go_error + zip_entry list"

text \<open>The set \<open>expectedFileNames\<close>, filled by the two nested loops over the cases.\<close>

definition expectedFileNames :: "ProblemSettings \<Rightarrow> string set" where
  "expectedFileNames settings =
     foldl (\<lambda>names groupSettings.
              foldl (\<lambda>names caseSettings. insert (cs_Name caseSettings @ ''.out'') names)
                names (gs_Cases groupSettings))
       {} (Cases settings)"

text \<open>
  The loop over \<open>z.File\<close>. The size is compared with \<open>uint64(settings.Limits.OutputLimit)\<close>,
  the same 64 bits read as unsigned, which is the order of words.
\<close>

fun parseEntries ::
  "ProblemSettings \<Rightarrow> zip_entry list \<Rightarrow> (string \<rightharpoonup> string) \<Rightarrow> (string \<rightharpoonup> string)" where
  "parseEntries settings [] result = result"
| "parseEntries settings (f # fs) result =
     (if \<not> HasSuffix (ze_Name f) ''.out'' then parseEntries settings fs result
      else
        let idx = LastIndex (ze_Name f) ''/'';
            fileName = (if idx \<noteq> - 1 then drop (nat (idx + 1)) (ze_Name f) else ze_Name f)
        in if fileName \<notin> expectedFileNames settings then parseEntries settings fs result
           else if ze_UncompressedSize64 f > OutputLimit (Limits settings)
           then parseEntries settings fs (result(fileName \<mapsto> []))
           else (case ze_contents f of
                   Inl err \<Rightarrow> parseEntries settings fs result
                 | Inr contents \<Rightarrow> parseEntries settings fs (result(fileName \<mapsto> contents))))"

text \<open>\<open>parseOutputOnlyFile\<close>: the map and the error (\<open>None\<close> for nil).\<close>

definition parseOutputOnlyFile ::
  "decoders \<Rightarrow> string \<Rightarrow> ProblemSettings \<Rightarrow> (string \<rightharpoonup> string) \<times> go_error option" where
  "parseOutputOnlyFile lib data settings =
     (case DecodeString lib data of
        Inl err \<Rightarrow> (Map.empty(''Main.out'' \<mapsto> data), None)
      | Inr payload \<Rightarrow>
          (case NewReader lib payload of
             Inl err \<Rightarrow> (Map.empty, Some err)
           | Inr files \<Rightarrow> (parseEntries settings files Map.empty, None)))"

text \<open>
  The words of the specification of the decoder: the basename of an entry is its last
  \<open>/\<close>-segment; an entry is accepted when its name ends in \<open>.out\<close> and its basename is
  \<open><caseName>.out\<close> for a case of the problem; it is too large when its uncompressed size
  exceeds the output limit; an accepted entry stands for the empty string when it is too
  large and for its contents otherwise.
\<close>

definition basename :: "string \<Rightarrow> string" where
  "basename name = rev (takeWhile (\<lambda>c. c \<noteq> CHR ''/'') (rev name))"

definition accepted :: "ProblemSettings \<Rightarrow> zip_entry \<Rightarrow> bool" where
  "accepted settings f \<longleftrightarrow>
     (\<exists>stem. ze_Name f = stem @ ''.out'') \<and>
     (\<exists>g \<in> set (Cases settings). \<exists>c \<in> set (gs_Cases g). basename (ze_Name f) = cs_Name c @ ''.out'')"

definition too_large :: "ProblemSettings \<Rightarrow> zip_entry \<Rightarrow> bool" where
  "too_large settings f \<longleftrightarrow> uint (ze_UncompressedSize64 f) > sint (OutputLimit (Limits settings))"

definition readable :: "zip_entry \<Rightarrow> bool" where
  "readable f \<longleftrightarrow> (case ze_contents f of Inl err \<Rightarrow> False | Inr contents \<Rightarrow> True)"

definition entry_text :: "ProblemSettings \<Rightarrow> zip_entry \<Rightarrow> string" where
  "entry_text settings f =
     (if too_large settings f then []
      else (case ze_contents f of Inl err \<Rightarrow> [] | Inr contents \<Rightarrow> contents))"

text \<open>An accepted entry is stored when it is too large or can be read.\<close>

definition stored :: "ProblemSettings \<Rightarrow> zip_entry \<Rightarrow> bool" where
  "stored settings f \<longleftrightarrow> accepted settings f \<and> (too_large settings f \<or> readable f)"

text \<open>
  A problem with the cases \<open>a\<close> and \<open>b\<close> and an output limit of 10 bytes, and an archive
  for it: \<open>a.out\<close> inside a directory, a \<open>b.out\<close> of 11 bytes, and two files that belong
  to no case.
\<close>

definition sample_settings :: ProblemSettings where
  "sample_settings =
     \<lparr>Cases = [\<lparr>gs_Cases = [\<lparr>cs_Name = ''a'', cs_Weight = 1 / 2\<rparr>, \<lparr>cs_Name = ''b'', cs_Weight = 1 / 2\<rparr>],
                 gs_Name = ''g'', gs_Weight = 1\<rparr>],
      Limits = \<lparr>ExtraWallTime = 0, MemoryLimit = 33554432, OutputLimit = 10,
                OverallWallTimeLimit = 60000, TimeLimit = 1000\<rparr>,
      Slow = False,
      Validator = \<lparr>v_Lang = None, v_Name = ''token'', v_Tolerance = None, v_Limits = None\<rparr>\<rparr>"

definition sample_archive :: "zip_entry list" where
  "sample_archive =
     [\<lparr>ze_Name = ''dir/a.out'', ze_UncompressedSize64 = 3, ze_contents = Inr ''abc''\<rparr>,
      \<lparr>ze_Name = ''b.out'', ze_UncompressedSize64 = 11, ze_contents = Inr ''01234567890''\<rparr>,
      \<lparr>ze_Name = ''c.out'', ze_UncompressedSize64 = 1, ze_contents = Inr ''c''\<rparr>,
      \<lparr>ze_Name = ''a.txt'', ze_UncompressedSize64 = 1, ze_contents = Inr ''t''\<rparr>]"

definition sample_lib :: decoders where
  "sample_lib =
     \<lparr>DecodeString = (\<lambda>data. if take 5 data = ''data:'' then Inr (drop 5 data)
                               else Inl (GoError ''missing data prefix'')),
      NewReader = (\<lambda>payload. if payload = ''PK'' then Inr sample_archive
                               else Inl (GoError ''zip: not a valid zip file''))\<rparr>"

section \<open>Runner: Grade\<close>

text \<open>
  Modelled from the spec: the declaration of \<open>RunMetadata\<close> is not among the sources; the
  spec lists its fields as the verdict, time, wall time, memory and an opaque status
  integer.
\<close>

record RunMetadata =
  m_Verdict :: string
  m_Time :: real
  m_WallTime :: real
  m_Memory :: "64 word"
  m_Status :: int

text \<open>The composite literal \<open>RunMetadata{Verdict: v}\<close>.\<close>

definition RunMetadata_of_Verdict :: "string \<Rightarrow> RunMetadata" where
  "RunMetadata_of_Verdict v = \<lparr>m_Verdict = v, m_Time = 0, m_WallTime = 0, m_Memory = 0, m_Status = 0\<rparr>"

text \<open>
  Modelled from the spec: the helper \<open>max64\<close> is not among the sources; the spec reads it
  as the maximum of two \<open>int64\<close> values.
\<close>

definition max64 :: "64 word \<Rightarrow> 64 word \<Rightarrow> 64 word" where
  "max64 a b = (if sint a < sint b then b else a)"

record CaseResult =
  cr_Verdict :: string
  cr_Name :: string
  cr_Score :: real
  cr_ContestScore :: real
  cr_MaxScore :: real
  cr_Meta :: "string \<rightharpoonup> RunMetadata"

record GroupResult =
  gr_Group :: string
  gr_Score :: real
  gr_ContestScore :: real
  gr_MaxScore :: real
  gr_Cases :: "CaseResult list"

record RunResult =
  rr_Verdict :: string
  rr_CompileError :: "string option"
  rr_CompileMeta :: "string \<rightharpoonup> RunMetadata"
  rr_Score :: real
  rr_ContestScore :: real
  rr_MaxScore :: real
  rr_Time :: real
  rr_WallTime :: real
  rr_Memory :: "64 word"
  rr_JudgedBy :: string
  rr_Groups :: "GroupResult list"

text \<open>The fields of \<open>common.Run\<close> that \<open>Grade\<close> reads.\<close>

record Run =
  run_AttemptID :: "64 word"
  run_Source :: string
  run_Language :: string
  run_MaxScore :: real

datatype binaryType = binaryProblemsetter | binaryContestant | binaryValidator

text \<open>
  A path is kept as the list of the elements given to \<open>path.Join\<close>, which drops empty
  elements; the cleaning that \<open>Join\<close> also does (of \<open>..\<close> and doubled slashes inside an
  element) is not modelled.
\<close>

type_synonym path = "string list"

definition Join :: "string list \<Rightarrow> path" where
  "Join elems = filter (\<lambda>e. e \<noteq> []) elems"

record binary =
  b_name :: string
  b_target :: string
  b_language :: string
  b_binPath :: path
  b_outputPathPrefix :: string
  b_binaryType :: binaryType
  b_receiveInput :: bool
  b_sourceFiles :: "path list"
  b_extraFlags :: "string list"
  b_extraMountPoints :: "(path \<times> string) list"

text \<open>
  The collaborators of \<open>Grade\<close>. The sandbox answers are functions of the call: \<open>sb_Compile\<close>
  of the language and the binary, \<open>sb_Run\<close> of the positions of group and case and the
  binary, \<open>sb_Validate\<close> of the positions and of the paths given to the validator.
  \<open>arrival\<close> is the order in which the concurrent tasks of one case post their results to
  the channel. The file system answers by path. \<open>CalculateScore\<close> is not among the sources;
  it is a function of the two files it is given. \<open>uploadFiles\<close> stands for the zip upload
  of the generated files.
\<close>

record world =
  runRoot :: string
  inputPath :: string
  sb_Supported :: bool
  sb_Compile :: "string \<Rightarrow> binary \<Rightarrow> RunMetadata option \<times> go_error option"
  sb_Run :: "nat \<Rightarrow> nat \<Rightarrow> binary \<Rightarrow> RunMetadata option \<times> go_error option"
  sb_Validate :: "nat \<Rightarrow> nat \<Rightarrow> path \<Rightarrow> path \<Rightarrow> RunMetadata option \<times> go_error option"
  arrival :: "nat \<Rightarrow> nat \<Rightarrow> binary list \<Rightarrow> binary list"
  fs_MkdirAll :: "path \<Rightarrow> go_error option"
  fs_Link :: "path \<Rightarrow> path \<Rightarrow> go_error option"
  fs_ReadFile :: "path \<Rightarrow> go_error + string"
  fs_Open :: "path \<Rightarrow> go_error option"
  fs_NotExist :: "path \<Rightarrow> bool"
  CalculateScore :: "path \<Rightarrow> path \<Rightarrow> real \<times> go_error option"
  uploadFiles :: "path list \<Rightarrow> go_error option"

text \<open>A phase of \<open>Grade\<close> either makes \<open>Grade\<close> return or hands its state on.\<close>

datatype 'a phase = Return RunResult "go_error option" | Next 'a

text \<open>
  What the code between the sandbox check and the validator set-up leaves behind (the
  interactive or plain binary plan and the staging of the sources): either \<open>Grade\<close> has
  returned there, or it goes on with the binaries to compile, the decoded output-only
  files and the compile metadata recorded so far.
\<close>

datatype staging =
    StagingReturns RunResult "go_error option"
  | Staged "binary list" "string \<rightharpoonup> string" "string \<rightharpoonup> RunMetadata"

text \<open>\<open>getCompileError\<close>: the contents of the file, or the text of the error.\<close>

definition getCompileError :: "world \<Rightarrow> path \<Rightarrow> string" where
  "getCompileError w errorFile =
     (case fs_ReadFile w errorFile of Inl err \<Rightarrow> Error err | Inr bytes \<Rightarrow> bytes)"

text \<open>
  The set-up of the custom validator: \<open>Grade\<close> returns when the directory or the link
  cannot be made and panics on a nil \<open>Validator.Lang\<close>; otherwise the validator binary is
  appended.
\<close>

definition addValidator :: "world \<Rightarrow> ProblemSettings \<Rightarrow> RunResult \<Rightarrow> binary list \<Rightarrow> go_panic + binary list phase" where
  "addValidator w settings runResult binaries =
     (let validatorBinPath = Join [runRoot w, ''validator'', ''bin'']
      in if v_Name (Validator settings) = ''custom''
         then (case fs_MkdirAll w validatorBinPath of
                 Some err \<Rightarrow> Inr (Return runResult (Some err))
               | None \<Rightarrow>
                   (case v_Lang (Validator settings) of
                      None \<Rightarrow> Inl NilDereference
                    | Some validatorLang \<Rightarrow>
                        let validatorFileName = ''validator.'' @ validatorLang;
                            validatorSourceFile = Join (validatorBinPath @ [validatorFileName])
                        in (case fs_Link w (Join [inputPath w, validatorFileName]) validatorSourceFile of
                              Some err \<Rightarrow> Inr (Return runResult (Some err))
                            | None \<Rightarrow>
                                Inr (Next (binaries @
                                  [\<lparr>b_name = ''validator'', b_target = ''validator'',
                                    b_language = validatorLang, b_binPath = validatorBinPath,
                                    b_outputPathPrefix = ''validator'',
                                    b_binaryType = binaryValidator, b_receiveInput = False,
                                    b_sourceFiles = [validatorSourceFile], b_extraFlags = [],
                                    b_extraMountPoints = []\<rparr>])))))
         else Inr (Next binaries))"

text \<open>The language a binary is compiled with.\<close>

definition compileLang :: "binary \<Rightarrow> string" where
  "compileLang b =
     (if b_binaryType b = binaryValidator \<and> b_language b = ''cpp'' then ''cpp11'' else b_language b)"

text \<open>The file that holds the compiler's complaint.\<close>

definition compileErrorFile :: "binary \<Rightarrow> string" where
  "compileErrorFile b = (if b_language b = ''pas'' then ''compile.out'' else ''compile.err'')"

text \<open>
  The compile loop: the run result and the generated files after all binaries compiled,
  or the return of \<open>Grade\<close> at the first binary that does not compile. Reading the verdict
  of a nil \<open>compileMeta\<close> panics.
\<close>

fun compileBinaries ::
  "world \<Rightarrow> binary list \<Rightarrow> RunResult \<times> path list \<Rightarrow> go_panic + (RunResult \<times> path list) phase" where
  "compileBinaries w [] (runResult, generatedFiles) = Inr (Next (runResult, generatedFiles))"
| "compileBinaries w (b # bs) (runResult, generatedFiles) =
     (let binRoot = [runRoot w, b_name b];
          (compileMeta, err) = sb_Compile w (compileLang b) b;
          generatedFiles1 = generatedFiles @
            [Join [b_name b, ''compile.out''], Join [b_name b, ''compile.err''],
             Join [b_name b, ''compile.meta'']];
          runResult1 = (case compileMeta of
                          None \<Rightarrow> runResult
                        | Some m \<Rightarrow> runResult\<lparr>rr_CompileMeta := (rr_CompileMeta runResult)(b_name b \<mapsto> m)\<rparr>);
          failed = Return
            (runResult1\<lparr>rr_Verdict := ''CE'',
               rr_CompileError := Some (b_name b @ [CHR '':'', CHR 0x0A] @
                  getCompileError w (Join (binRoot @ [compileErrorFile b])))\<rparr>)
            err
      in if err \<noteq> None then Inr failed
         else (case compileMeta of
                 None \<Rightarrow> Inl NilDereference
               | Some m \<Rightarrow>
                   if m_Verdict m \<noteq> ''OK'' then Inr failed
                   else compileBinaries w bs (runResult1, generatedFiles1)))"

text \<open>The running totals of the aggregation of one sandboxed case.\<close>

record aggregation =
  parentMetadata :: "RunMetadata option"
  chosenMetadata :: RunMetadata
  chosenMetadataEmpty :: bool
  totalTime :: real
  totalWallTime :: real
  totalMemory :: "64 word"

definition aggregation_start :: aggregation where
  "aggregation_start =
     \<lparr>parentMetadata = None, chosenMetadata = RunMetadata_of_Verdict ''OK'',
      chosenMetadataEmpty = True, totalTime = 0, totalWallTime = 0, totalMemory = 0\<rparr>"

text \<open>
  The loop \<open>for i := 0; i < regularBinaryCount; i++\<close> that receives the intermediate results
  (metadata and binary type) from the channel, given here in their order of arrival.
\<close>

fun receiveResults ::
  "nat \<Rightarrow> (RunMetadata option \<times> binaryType) list \<Rightarrow> aggregation \<Rightarrow> go_panic + aggregation" where
  "receiveResults 0 results a = Inr a"
| "receiveResults (Suc n) [] a = Inl Deadlock"
| "receiveResults (Suc n) ((runMeta, t) # results) a =
     (if t = binaryProblemsetter then receiveResults n results (a\<lparr>parentMetadata := runMeta\<rparr>)
      else (case runMeta of
              None \<Rightarrow> Inl NilDereference
            | Some m \<Rightarrow>
                let a1 = (if m_Verdict m \<noteq> ''OK'' \<and> chosenMetadataEmpty a
                          then a\<lparr>chosenMetadata := m, chosenMetadataEmpty := False\<rparr>
                          else a)
                in receiveResults n results
                     (a1\<lparr>totalTime := totalTime a1 + m_Time m,
                         totalWallTime := totalWallTime a1 + m_WallTime m,
                         totalMemory := totalMemory a1 + max64 (totalMemory a1) (m_Memory m)\<rparr>)))"

text \<open>The metadata of a sandboxed case: the chosen metadata with the totals written in.\<close>

definition aggregateCase :: "nat \<Rightarrow> (RunMetadata option \<times> binaryType) list \<Rightarrow> go_panic + RunMetadata" where
  "aggregateCase regularBinaryCount results =
     bind_panic (receiveResults regularBinaryCount results aggregation_start)
       (\<lambda>a. Inr ((chosenMetadata a)\<lparr>m_Time := totalTime a, m_WallTime := totalWallTime a,
                                     m_Memory := totalMemory a\<rparr>))"

text \<open>The three files a run of \<open>caseName\<close> leaves under the output prefix of a binary.\<close>

definition caseFiles :: "string \<Rightarrow> string \<Rightarrow> path list" where
  "caseFiles prefix caseName =
     [Join [prefix, caseName @ ''.out''], Join [prefix, caseName @ ''.err''],
      Join [prefix, caseName @ ''.meta'']]"

text \<open>
  What the loops of \<open>Grade\<close> share: the collaborators, the run, the settings of the
  input, the binaries, \<open>regularBinaryCount\<close>, the decoded output-only files and the
  wall-time limit in seconds.
\<close>

record job =
  j_world :: world
  j_run :: Run
  j_settings :: ProblemSettings
  j_binaries :: "binary list"
  j_regularBinaryCount :: nat
  j_outputOnlyFiles :: "string \<rightharpoonup> string"
  j_wallTimeLimit :: real

text \<open>
  One case of the execution loop: its metadata comes from the wall-time guard, from the
  output-only files, or from the sandbox; then the run result is updated and the case
  result is built.
\<close>

definition runCase ::
  "job \<Rightarrow> nat \<Rightarrow> nat \<Rightarrow> CaseSettings \<Rightarrow> RunResult \<times> path list \<Rightarrow>
   go_panic + (CaseResult \<times> RunResult \<times> path list)" where
  "runCase job i j caseData st =
     (let (runResult, generatedFiles) = st;
          w = j_world job;
          metaAndFiles =
            (if rr_WallTime runResult > j_wallTimeLimit job
             then Inr (RunMetadata_of_Verdict ''TLE'', generatedFiles)
             else if run_Language (j_run job) = ''cat''
             then Inr (RunMetadata_of_Verdict
                         (if j_outputOnlyFiles job (cs_Name caseData @ ''.out'') \<noteq> None
                          then ''OK'' else ''RTE''),
                       generatedFiles @
                         [Join [cs_Name caseData @ ''.out''], Join [cs_Name caseData @ ''.err''],
                          Join [cs_Name caseData @ ''.meta'']])
             else
               let started = arrival w i j
                     (filter (\<lambda>bin. b_binaryType bin \<noteq> binaryValidator) (j_binaries job))
               in bind_panic
                    (aggregateCase (j_regularBinaryCount job)
                       (map (\<lambda>bin. (fst (sb_Run w i j bin), b_binaryType bin)) started))
                    (\<lambda>chosen. Inr (chosen,
                       generatedFiles @
                         concat (map (\<lambda>bin. caseFiles (b_outputPathPrefix bin) (cs_Name caseData)) started))))
      in bind_panic metaAndFiles
           (\<lambda>(runMeta, generatedFiles1).
              bind_panic (worseVerdict (rr_Verdict runResult) (m_Verdict runMeta))
                (\<lambda>v. Inr
                   (\<lparr>cr_Verdict = m_Verdict runMeta, cr_Name = cs_Name caseData, cr_Score = 0,
                     cr_ContestScore = 0, cr_MaxScore = rr_MaxScore runResult * cs_Weight caseData,
                     cr_Meta = [''Main'' \<mapsto> runMeta]\<rparr>,
                    runResult\<lparr>rr_Verdict := v,
                      rr_Time := rr_Time runResult + m_Time runMeta,
                      rr_WallTime := rr_WallTime runResult + m_WallTime runMeta,
                      rr_Memory := max64 (rr_Memory runResult) (m_Memory runMeta)\<rparr>,
                    generatedFiles1))))"

text \<open>The loop over the cases of group \<open>i\<close>, entered at case \<open>j\<close>.\<close>

fun runCases ::
  "job \<Rightarrow> nat \<Rightarrow> nat \<Rightarrow> CaseSettings list \<Rightarrow> RunResult \<times> path list \<Rightarrow>
   go_panic + (CaseResult list \<times> RunResult \<times> path list)" where
  "runCases job i j [] st = Inr ([], st)"
| "runCases job i j (caseData # cases) st =
     bind_panic (runCase job i j caseData st)
       (\<lambda>(caseResult, st1).
          bind_panic (runCases job i (Suc j) cases st1)
            (\<lambda>(caseResults, st2). Inr (caseResult # caseResults, st2)))"

text \<open>The loop over the groups, entered at group \<open>i\<close>.\<close>

fun runGroups ::
  "job \<Rightarrow> nat \<Rightarrow> GroupSettings list \<Rightarrow> RunResult \<times> path list \<Rightarrow>
   go_panic + (GroupResult list \<times> RunResult \<times> path list)" where
  "runGroups job i [] st = Inr ([], st)"
| "runGroups job i (groupSettings # groups) st =
     bind_panic (runCases job i 0 (gs_Cases groupSettings) st)
       (\<lambda>(caseResults, runResult, generatedFiles).
          bind_panic (runGroups job (Suc i) groups (runResult, generatedFiles))
            (\<lambda>(groupResults, st2).
               Inr (\<lparr>gr_Group = gs_Name groupSettings, gr_Score = 0, gr_ContestScore = 0,
                      gr_MaxScore = rr_MaxScore runResult * gs_Weight groupSettings,
                      gr_Cases = caseResults\<rparr> # groupResults, st2)))"

text \<open>
  The validation of one case. The state is the run result, the generated files, the flag
  \<open>correct\<close> and the \<open>score\<close> of the group. A case whose verdict is not OK is left alone;
  a file that cannot be opened ends the iteration (\<open>continue\<close>).
\<close>

definition validateCase ::
  "job \<Rightarrow> nat \<Rightarrow> nat \<Rightarrow> CaseSettings \<Rightarrow> CaseResult \<Rightarrow> RunResult \<times> path list \<times> bool \<times> real \<Rightarrow>
   go_panic + (CaseResult \<times> RunResult \<times> path list \<times> bool \<times> real)" where
  "validateCase job i j caseData caseResults st =
     (let (runResult, generatedFiles, correct, score) = st;
          w = j_world job;
          custom = (v_Name (Validator (j_settings job)) = ''custom'');
          outName = cs_Name caseData @ ''.out''
      in if cr_Verdict caseResults \<noteq> ''OK'' then Inr (caseResults, st)
         else
           bind_panic
             (if custom
              then
                let originalOutputFile =
                      (if fs_NotExist w (Join [inputPath w, ''out'', outName]) then [''/dev/null'']
                       else Join [inputPath w, ''out'', outName])
                in (case v_Lang (Validator (j_settings job)) of
                      None \<Rightarrow> Inl NilDereference
                    | Some validatorLang \<Rightarrow>
                        (case fst (sb_Validate w i j (Join [runRoot w, outName]) originalOutputFile) of
                           None \<Rightarrow> Inl NilDereference
                         | Some validateMeta \<Rightarrow>
                             Inr (caseResults\<lparr>cr_Meta := (cr_Meta caseResults)(''validator'' \<mapsto> validateMeta)\<rparr>,
                                  generatedFiles @ caseFiles ''validator'' (cs_Name caseData),
                                  if m_Verdict validateMeta \<noteq> ''OK'' then [''/dev/null'']
                                  else Join [runRoot w, ''validator'', outName])))
              else Inr (caseResults, generatedFiles, Join [runRoot w, outName]))
             (\<lambda>(caseResults1, generatedFiles1, contestantPath).
                if fs_Open w contestantPath \<noteq> None
                then Inr (caseResults1, runResult, generatedFiles1, correct, score)
                else
                  let expectedPath = (if custom then [''/dev/null'']
                                      else Join [inputPath w, ''out'', outName])
                  in if fs_Open w expectedPath \<noteq> None
                     then Inr (caseResults1, runResult, generatedFiles1, correct, score)
                     else
                       let runScore = fst (CalculateScore w contestantPath expectedPath);
                           caseResults2 = caseResults1\<lparr>cr_Score := runScore,
                             cr_ContestScore := rr_MaxScore runResult * runScore * cs_Weight caseData\<rparr>;
                           score1 = score + runScore * cs_Weight caseData
                       in if runScore = 1
                          then Inr (caseResults2\<lparr>cr_Verdict := ''AC''\<rparr>,
                                    runResult, generatedFiles1, correct, score1)
                          else
                            bind_panic (worseVerdict (rr_Verdict runResult) ''PA'')
                              (\<lambda>v. if runScore = 0
                                    then Inr (caseResults2\<lparr>cr_Verdict := ''WA''\<rparr>,
                                              runResult\<lparr>rr_Verdict := v\<rparr>, generatedFiles1, False, score1)
                                    else Inr (caseResults2\<lparr>cr_Verdict := ''PA''\<rparr>,
                                              runResult\<lparr>rr_Verdict := v\<rparr>, generatedFiles1, correct, score1))))"

text \<open>
  The validation loop over the cases of group \<open>i\<close>, reading \<open>groupResults[i].Cases[j]\<close>,
  which panics when the group has fewer case results than cases.
\<close>

fun validateCases ::
  "job \<Rightarrow> nat \<Rightarrow> nat \<Rightarrow> CaseSettings list \<Rightarrow> CaseResult list \<Rightarrow> RunResult \<times> path list \<times> bool \<times> real \<Rightarrow>
   go_panic + (CaseResult list \<times> RunResult \<times> path list \<times> bool \<times> real)" where
  "validateCases job i j [] caseResults st = Inr (caseResults, st)"
| "validateCases job i j (caseData # cases) [] st = Inl IndexOutOfRange"
| "validateCases job i j (caseData # cases) (caseResult # caseResults) st =
     bind_panic (validateCase job i j caseData caseResult st)
       (\<lambda>(caseResult1, st1).
          bind_panic (validateCases job i (Suc j) cases caseResults st1)
            (\<lambda>(caseResults1, st2). Inr (caseResult1 # caseResults1, st2)))"

text \<open>
  The validation loop over the groups: a group whose flag \<open>correct\<close> is still set after
  its cases gets its score, which is added to the run result.
\<close>

fun validateGroups ::
  "job \<Rightarrow> nat \<Rightarrow> GroupSettings list \<Rightarrow> GroupResult list \<Rightarrow> RunResult \<times> path list \<Rightarrow>
   go_panic + (GroupResult list \<times> RunResult \<times> path list)" where
  "validateGroups job i [] groupResults st = Inr (groupResults, st)"
| "validateGroups job i (groupSettings # groups) [] st = Inl IndexOutOfRange"
| "validateGroups job i (groupSettings # groups) (groupResult # groupResults) (runResult, generatedFiles) =
     bind_panic
       (validateCases job i 0 (gs_Cases groupSettings) (gr_Cases groupResult)
          (runResult, generatedFiles, True, 0))
       (\<lambda>(caseResults, runResult1, generatedFiles1, correct, score).
          let groupResult1 = groupResult\<lparr>gr_Cases := caseResults\<rparr>;
              (groupResult2, runResult2) =
                (if correct
                 then (groupResult1\<lparr>gr_Score := score,
                         gr_ContestScore := rr_MaxScore runResult1 * score\<rparr>,
                       runResult1\<lparr>rr_Score := rr_Score runResult1 + score,
                         rr_ContestScore := rr_ContestScore runResult1 + rr_MaxScore runResult1 * score\<rparr>)
                 else (groupResult1, runResult1))
          in bind_panic (validateGroups job (Suc i) groups groupResults (runResult2, generatedFiles1))
               (\<lambda>(groupResults1, st2). Inr (groupResult2 # groupResults1, st2)))"

text \<open>The rewriting of the overall verdict at the end of \<open>Grade\<close>.\<close>

definition finalVerdict :: "RunResult \<Rightarrow> RunResult" where
  "finalVerdict runResult =
     (if rr_Verdict runResult = ''PA'' \<and> rr_Score runResult = 0
      then runResult\<lparr>rr_Verdict := ''WA''\<rparr>
      else if rr_Verdict runResult = ''OK''
      then runResult\<lparr>rr_Verdict := ''AC'', rr_Score := 1, rr_ContestScore := rr_MaxScore runResult\<rparr>
      else runResult)"

text \<open>Go's integer division, which truncates towards zero.\<close>

definition quo :: "int \<Rightarrow> int \<Rightarrow> int" where
  "quo a b = (if (a < 0) = (b < 0) then \<bar>a\<bar> div \<bar>b\<bar> else - (\<bar>a\<bar> div \<bar>b\<bar>))"

text \<open>The run result \<open>Grade\<close> starts from.\<close>

definition newRunResult :: "Run \<Rightarrow> RunResult" where
  "newRunResult run =
     \<lparr>rr_Verdict = ''JE'', rr_CompileError = None, rr_CompileMeta = Map.empty,
      rr_Score = 0, rr_ContestScore = 0, rr_MaxScore = run_MaxScore run,
      rr_Time = 0, rr_WallTime = 0, rr_Memory = 0, rr_JudgedBy = [], rr_Groups = []\<rparr>"

text \<open>
  \<open>Grade\<close> up to the line \<open>runResult.Groups = groupResults\<close>: the sandbox check, the
  staging, the validator set-up, the compile loop, the execution loop and the
  validation loop. It either makes \<open>Grade\<close> return or hands on the run result and the
  generated files.
\<close>

definition gradeCases ::
  "world \<Rightarrow> Run \<Rightarrow> ProblemSettings \<Rightarrow> staging \<Rightarrow> go_panic + (RunResult \<times> path list) phase" where
  "gradeCases w run settings staged =
     (if \<not> sb_Supported w
      then Inr (Return (newRunResult run) (Some (GoError ''Sandbox not supported'')))
      else (case staged of
              StagingReturns r err \<Rightarrow> Inr (Return r err)
            | Staged binaries0 outputOnlyFiles compileMeta \<Rightarrow>
                let runResult = (newRunResult run)\<lparr>rr_CompileMeta := compileMeta\<rparr>
                in bind_panic (addValidator w settings runResult binaries0)
                     (\<lambda>planned. case planned of
                        Return r err \<Rightarrow> Inr (Return r err)
                      | Next binaries \<Rightarrow>
                          bind_panic (compileBinaries w binaries (runResult, []))
                            (\<lambda>compiled. case compiled of
                               Return r err \<Rightarrow> Inr (Return r err)
                             | Next (runResult1, generatedFiles) \<Rightarrow>
                                 let job = \<lparr>j_world = w, j_run = run, j_settings = settings,
                                            j_binaries = binaries,
                                            j_regularBinaryCount = length binaries0,
                                            j_outputOnlyFiles = outputOnlyFiles,
                                            j_wallTimeLimit =
                                              real_of_int (quo (sint (OverallWallTimeLimit (Limits settings))) 1000)\<rparr>
                                 in bind_panic
                                      (runGroups job 0 (Cases settings)
                                         (runResult1\<lparr>rr_Verdict := ''OK''\<rparr>, generatedFiles))
                                      (\<lambda>(groupResults, runResult2, generatedFiles2).
                                         bind_panic
                                           (validateGroups job 0 (Cases settings) groupResults
                                              (runResult2, generatedFiles2))
                                           (\<lambda>(groupResults3, runResult3, generatedFiles3).
                                              Inr (Next (runResult3\<lparr>rr_Groups := groupResults3\<rparr>,
                                                         generatedFiles3))))))))"

text \<open>
  \<open>Grade\<close>: the result and the error (\<open>None\<close> for nil), or a panic. After the loops the
  overall verdict is rewritten and the generated files are uploaded.
\<close>

definition Grade ::
  "world \<Rightarrow> Run \<Rightarrow> ProblemSettings \<Rightarrow> staging \<Rightarrow> go_panic + (RunResult \<times> go_error option)" where
  "Grade w run settings staged =
     bind_panic (gradeCases w run settings staged)
       (\<lambda>graded. case graded of
          Return r err \<Rightarrow> Inr (r, err)
        | Next (runResult, generatedFiles) \<Rightarrow>
            Inr (finalVerdict runResult, uploadFiles w generatedFiles))"

text \<open>
  What a grading shows: the overall verdict, score and contest score, the compile error,
  for every group its score and the verdicts of its cases, and the error returned.
\<close>

fun observe_grade ::
  "go_panic + (RunResult \<times> go_error option) \<Rightarrow>
   go_panic + (string \<times> real \<times> real \<times> string option \<times> (real \<times> string list) list \<times> go_error option)" where
  "observe_grade (Inl p) = Inl p"
| "observe_grade (Inr (r, err)) =
     Inr (rr_Verdict r, rr_Score r, rr_ContestScore r, rr_CompileError r,
          map (\<lambda>g. (gr_Score g, map cr_Verdict (gr_Cases g))) (rr_Groups r), err)"

text \<open>
  A plain C++ submission worth 100 points for the problem \<open>sample_settings\<close> (cases \<open>a\<close>
  and \<open>b\<close> of weight one half in one group), staged as the single contestant binary
  \<open>Main\<close>.
\<close>

definition sample_run :: Run where
  "sample_run = \<lparr>run_AttemptID = 1, run_Source = ''int main() {}'', run_Language = ''cpp'',
                  run_MaxScore = 100\<rparr>"

definition sample_Main :: binary where
  "sample_Main =
     \<lparr>b_name = ''Main'', b_target = ''Main'', b_language = ''cpp'',
      b_binPath = [''/run'', ''Main'', ''bin''], b_outputPathPrefix = [],
      b_binaryType = binaryContestant, b_receiveInput = True,
      b_sourceFiles = [[''/run'', ''Main'', ''bin'', ''Main.cpp'']], b_extraFlags = [],
      b_extraMountPoints = []\<rparr>"

definition sample_staging :: staging where
  "sample_staging = Staged [sample_Main] Map.empty Map.empty"

text \<open>
  A world in which everything compiles, every file opens, the sandbox reports the verdict
  \<open>verdicts ! j\<close> for case \<open>j\<close> with one second of time and 1000 bytes of memory, and the
  validator gives case \<open>j\<close> the score \<open>scores ! j\<close>.
\<close>

definition sample_world :: "string list \<Rightarrow> real list \<Rightarrow> world" where
  "sample_world verdicts scores =
     \<lparr>runRoot = ''/run'', inputPath = ''/input'', sb_Supported = True,
      sb_Compile = (\<lambda>lang b. (Some (RunMetadata_of_Verdict ''OK''), None)),
      sb_Run = (\<lambda>i j b. (Some \<lparr>m_Verdict = verdicts ! j, m_Time = 1, m_WallTime = 1,
                                  m_Memory = 1000, m_Status = 0\<rparr>, None)),
      sb_Validate = (\<lambda>i j contestant original. (Some (RunMetadata_of_Verdict ''OK''), None)),
      arrival = (\<lambda>i j started. started),
      fs_MkdirAll = (\<lambda>p. None),
      fs_Link = (\<lambda>src dst. None),
      fs_ReadFile = (\<lambda>p. Inr ''Main.cpp:1: error''),
      fs_Open = (\<lambda>p. None),
      fs_NotExist = (\<lambda>p. False),
      CalculateScore = (\<lambda>contestant expected.
         (if contestant = [''/run'', ''a.out''] then scores ! 0 else scores ! 1, None)),
      uploadFiles = (\<lambda>files. None)\<rparr>"

text \<open>
  The same problem with a custom validator written in Pascal, and a world in which that
  validator does not compile and the compiler's complaint is in its \<open>compile.out\<close>.
\<close>

definition custom_settings :: ProblemSettings where
  "custom_settings =
     sample_settings\<lparr>Validator :=
       \<lparr>v_Lang = Some ''pas'', v_Name = ''custom'', v_Tolerance = None, v_Limits = None\<rparr>\<rparr>"

definition validator_binary :: binary where
  "validator_binary =
     \<lparr>b_name = ''validator'', b_target = ''validator'', b_language = ''pas'',
      b_binPath = [''/run'', ''validator'', ''bin''], b_outputPathPrefix = ''validator'',
      b_binaryType = binaryValidator, b_receiveInput = False,
      b_sourceFiles = [[''/run'', ''validator'', ''bin'', ''validator.pas'']], b_extraFlags = [],
      b_extraMountPoints = []\<rparr>"

definition broken_validator_world :: world where
  "broken_validator_world =
     (sample_world [] [])
       \<lparr>sb_Compile := (\<lambda>lang b.
          (Some (RunMetadata_of_Verdict (if b_name b = ''validator'' then ''CE'' else ''OK'')), None)),
        fs_ReadFile := (\<lambda>p. if p = [''/run'', ''validator'', ''compile.out'']
                             then Inr ''Fatal: Syntax error''
                             else Inl (GoError ''no such file or directory''))\<rparr>"

section \<open>Grader: channels, queues and run contexts (grader/queue.go)\<close>

text \<open>
  The grader is modelled one call at a time: each function below is one call of the Go
  function of the same name, run to its end on an explicit state. A call that would wait on
  a channel with no other task to serve it has the outcome \<open>Blocks\<close>; a panic is
  \<open>Panics\<close>; otherwise the call \<open>Returns\<close> a value.
\<close>

datatype 'a outcome = Panics go_panic | Blocks | Returns 'a

fun bind_outcome :: "'a outcome \<Rightarrow> ('a \<Rightarrow> 'b outcome) \<Rightarrow> 'b outcome" where
  "bind_outcome (Panics p) f = Panics p"
| "bind_outcome Blocks f = Blocks"
| "bind_outcome (Returns x) f = f x"

text \<open>A buffered channel \<open>make(chan T, n)\<close>: the values in flight, oldest first, and \<open>n\<close>.\<close>

record 'a chan =
  buf :: "'a list"
  cap :: nat

definition make_chan :: "nat \<Rightarrow> 'a chan" where
  "make_chan n = \<lparr>buf = [], cap = n\<rparr>"

text \<open>\<open>len(c)\<close>.\<close>

definition chan_len :: "'a chan \<Rightarrow> nat" where
  "chan_len c = length (buf c)"

text \<open>
  A send that does not wait: the new channel, or \<open>None\<close> when the buffer is full (the
  \<open>default\<close> branch of a \<open>select\<close>, or the point where a plain send would wait).
\<close>

definition try_send :: "'a \<Rightarrow> 'a chan \<Rightarrow> 'a chan option" where
  "try_send x c = (if length (buf c) < cap c then Some (c\<lparr>buf := buf c @ [x]\<rparr>) else None)"

text \<open>A receive that does not wait: the oldest value and the new channel, or \<open>None\<close>.\<close>

definition try_recv :: "'a chan \<Rightarrow> ('a \<times> 'a chan) option" where
  "try_recv c = (case buf c of [] \<Rightarrow> None | x # xs \<Rightarrow> Some (x, c\<lparr>buf := xs\<rparr>))"

text \<open>\<open>QueuePriority\<close> with its three constants, in the order of their values 0, 1, 2.\<close>

datatype QueuePriority = QueuePriorityHigh | QueuePriorityNormal | QueuePriorityLow

text \<open>A \<open>*RunContext\<close> is an address of the store; \<open>None\<close> is the nil pointer.\<close>

type_synonym addr = nat

text \<open>\<open>Queue\<close>: the array \<open>runs\<close> of three channels and the channel \<open>ready\<close>.\<close>

record Queue =
  q_Name :: string
  runs :: "QueuePriority \<Rightarrow> addr chan"
  ready :: "unit chan"

text \<open>
  The fields of \<open>RunContext\<close> (with the embedded \<open>RunInfo\<close>) that the queue code reads or
  writes. \<open>rc_monitor\<close> tells whether \<open>monitor\<close> is non-nil, \<open>rc_input\<close> is the handle of the
  pinned input, \<open>rc_queue\<close> the queue pointer, \<open>rc_ready\<close> whether the channel \<open>ready\<close> has
  been closed. \<open>tries\<close> is Go's \<open>int\<close>; it only counts down from the configured number of
  retries, so its wrap-around at \<open>-2^63\<close> is out of reach and it is modelled by \<open>int\<close>.
\<close>

record RunContext =
  rc_GUID :: string
  rc_ProblemName :: string
  rc_InputHash :: string
  rc_AttemptID :: "64 word"
  rc_Verdict :: string
  rc_Priority :: QueuePriority
  rc_closed :: "32 word"
  rc_input :: "nat option"
  rc_tries :: int
  rc_queue :: "nat option"
  rc_monitor :: bool
  rc_ready :: bool

text \<open>
  \<open>InflightRun\<close>. Its channels \<open>connected\<close>, \<open>ready\<close> and \<open>timeout\<close> and its creation time
  serve the supervisor task started by \<open>InflightMonitor.Add\<close>, which waits on timers and is
  outside this model; the only thing that task does to the state is to call
  \<open>run.Requeue(false)\<close>.
\<close>

record InflightRun =
  ir_run :: addr
  ir_runner :: string

text \<open>What \<open>Close\<close> writes into the grade directory.\<close>

datatype artifact = DetailsJson string | LogsGz | TracingGz

text \<open>
  The state of the grader: the store of run contexts, the store of queues, the mapping of
  the inflight monitor, the runs sent to the post-processor (\<open>finishedRuns\<close>), the inputs
  released, the artifacts persisted by \<open>Close\<close>, and the last attempt identifier handed out.
\<close>

record grader =
  heap :: "addr \<Rightarrow> RunContext"
  next_addr :: addr
  queues :: "nat \<Rightarrow> Queue"
  mapping :: "64 word \<Rightarrow> InflightRun option"
  finishedRuns :: "addr list"
  released :: "nat list"
  persisted :: "(addr \<times> artifact) list"
  last_attempt :: "64 word"

text \<open>Whether each file-system step of \<open>Close\<close> succeeds.\<close>

record close_io =
  mkdir_ok :: bool
  details_ok :: bool
  logs_ok :: bool
  tracing_ok :: bool

text \<open>
  Modelled from the spec: \<open>common.NewAttemptID\<close> and \<open>Run.UpdateAttemptID\<close> are not among
  the sources; the spec calls the attempt id a monotonic per-try identifier that is minted
  fresh on every requeue. The model hands out the successor of the last identifier.
\<close>

definition NewAttemptID :: "grader \<Rightarrow> 64 word \<times> grader" where
  "NewAttemptID s = (last_attempt s + 1, s\<lparr>last_attempt := last_attempt s + 1\<rparr>)"

definition UpdateAttemptID :: "addr \<Rightarrow> grader \<Rightarrow> grader" where
  "UpdateAttemptID r s =
     (let (n, s1) = NewAttemptID s
      in s1\<lparr>heap := (heap s1)(r := (heap s1 r)\<lparr>rc_AttemptID := n\<rparr>)\<rparr>)"

text \<open>
  \<open>NewEmptyRunContext\<close>: a fresh context with verdict JE, normal priority and
  \<open>tries = ctx.Config.Grader.MaxGradeRetries\<close>; every other field has Go's zero value.
\<close>

definition NewEmptyRunContext :: "int \<Rightarrow> grader \<Rightarrow> addr \<times> grader" where
  "NewEmptyRunContext MaxGradeRetries s =
     (let (n, s1) = NewAttemptID s;
          r = next_addr s1;
          run = \<lparr>rc_GUID = [], rc_ProblemName = [], rc_InputHash = [], rc_AttemptID = n, rc_Verdict = ''JE'',
                 rc_Priority = QueuePriorityNormal, rc_closed = 0, rc_input = None,
                 rc_tries = MaxGradeRetries, rc_queue = None, rc_monitor = False,
                 rc_ready = False\<rparr>
      in (r, s1\<lparr>heap := (heap s1)(r := run), next_addr := Suc r\<rparr>))"

text \<open>\<open>QueueManager.Add\<close>: the queue created for \<open>channelLength\<close>.\<close>

definition new_Queue :: "string \<Rightarrow> nat \<Rightarrow> Queue" where
  "new_Queue name channelLength =
     \<lparr>q_Name = name, runs = (\<lambda>p. make_chan channelLength), ready = make_chan (3 * channelLength)\<rparr>"

text \<open>
  \<open>InflightMonitor.Remove\<close>: when the attempt is in the mapping, the monitor pointer of its
  run is cleared; the entry is deleted.
\<close>

definition monitor_Remove :: "64 word \<Rightarrow> grader \<Rightarrow> grader" where
  "monitor_Remove attemptID s =
     (let s1 = (case mapping s attemptID of
                  None \<Rightarrow> s
                | Some inflight \<Rightarrow>
                    s\<lparr>heap := (heap s)(ir_run inflight := (heap s (ir_run inflight))\<lparr>rc_monitor := False\<rparr>)\<rparr>)
      in s1\<lparr>mapping := (mapping s1)(attemptID := None)\<rparr>)"

text \<open>
  \<open>InflightMonitor.Add\<close>: the new inflight record is entered under the attempt id of the run
  and the run points to the monitor.
\<close>

definition monitor_Add :: "addr \<Rightarrow> string \<Rightarrow> grader \<Rightarrow> InflightRun \<times> grader" where
  "monitor_Add r runner s =
     (let inflight = \<lparr>ir_run = r, ir_runner = runner\<rparr>;
          s1 = s\<lparr>heap := (heap s)(r := (heap s r)\<lparr>rc_monitor := True\<rparr>)\<rparr>
      in (inflight, s1\<lparr>mapping := (mapping s1)(rc_AttemptID (heap s1 r) \<mapsto> inflight)\<rparr>))"

text \<open>
  \<open>RunContext.Close\<close>. The atomic swap of \<open>closed\<close> lets only the first call through. A
  failing file-system step returns early, before the latch \<open>ready\<close> is closed and before the
  post-processor is told. Closing an already closed channel would panic.
\<close>

definition Close :: "close_io \<Rightarrow> addr \<Rightarrow> grader \<Rightarrow> grader outcome" where
  "Close io r s =
     (if rc_closed (heap s r) \<noteq> 0 then Returns s
      else
        let s0 = s\<lparr>heap := (heap s)(r := (heap s r)\<lparr>rc_closed := 1\<rparr>)\<rparr>;
            postProcessor = rc_monitor (heap s0 r);
            s1 = (if rc_monitor (heap s0 r) then monitor_Remove (rc_AttemptID (heap s0 r)) s0 else s0);
            s2 = (case rc_input (heap s1 r) of
                    None \<Rightarrow> s1
                  | Some i \<Rightarrow> s1\<lparr>heap := (heap s1)(r := (heap s1 r)\<lparr>rc_input := None\<rparr>),
                                 released := released s1 @ [i]\<rparr>)
        in if \<not> mkdir_ok io then Returns s2
           else if \<not> details_ok io then Returns s2
           else
             let s3 = s2\<lparr>persisted := persisted s2 @ [(r, DetailsJson (rc_Verdict (heap s2 r)))]\<rparr>
             in if \<not> logs_ok io then Returns s3
                else
                  let s4 = s3\<lparr>persisted := persisted s3 @ [(r, LogsGz)]\<rparr>
                  in if \<not> tracing_ok io then Returns s4
                     else
                       let s5 = s4\<lparr>persisted := persisted s4 @ [(r, TracingGz)]\<rparr>
                       in if rc_ready (heap s5 r) then Panics CloseOfClosedChannel
                          else
                            let s6 = s5\<lparr>heap := (heap s5)(r := (heap s5 r)\<lparr>rc_ready := True\<rparr>)\<rparr>
                            in if postProcessor
                               then Returns (s6\<lparr>finishedRuns := finishedRuns s6 @ [r]\<rparr>)
                               else Returns s6)"

text \<open>
  \<open>Queue.enqueue(run, priority)\<close> on the queue \<open>qid\<close>: the \<open>select\<close> sends the run when the
  chosen channel has room and then sends one readiness token; otherwise it takes the
  \<open>default\<close> branch and returns false.
\<close>

definition enqueue :: "addr option \<Rightarrow> QueuePriority \<Rightarrow> nat \<Rightarrow> grader \<Rightarrow> (bool \<times> grader) outcome" where
  "enqueue run priority qid s =
     (case run of
        None \<Rightarrow> Panics NullRunContext
      | Some r \<Rightarrow>
          let s1 = s\<lparr>heap := (heap s)(r := (heap s r)\<lparr>rc_queue := Some qid\<rparr>)\<rparr>;
              q = queues s1 qid
          in (case try_send r (runs q priority) of
                Some c \<Rightarrow>
                  (case try_send () (ready q) of
                     None \<Rightarrow> Blocks
                   | Some t \<Rightarrow>
                       Returns (True,
                         s1\<lparr>queues := (queues s1)(qid := q\<lparr>runs := (runs q)(priority := c), ready := t\<rparr>)\<rparr>))
              | None \<Rightarrow> Returns (False, s1)))"

text \<open>
  \<open>Queue.enqueueBlocking(run)\<close>: the same with plain sends on the channel of
  \<open>run.Priority\<close>, each of which waits while its channel is full.
\<close>

definition enqueueBlocking :: "addr option \<Rightarrow> nat \<Rightarrow> grader \<Rightarrow> grader outcome" where
  "enqueueBlocking run qid s =
     (case run of
        None \<Rightarrow> Panics NullRunContext
      | Some r \<Rightarrow>
          let s1 = s\<lparr>heap := (heap s)(r := (heap s r)\<lparr>rc_queue := Some qid\<rparr>)\<rparr>;
              q = queues s1 qid;
              priority = rc_Priority (heap s1 r)
          in (case try_send r (runs q priority) of
                None \<Rightarrow> Blocks
              | Some c \<Rightarrow>
                  (case try_send () (ready q) of
                     None \<Rightarrow> Blocks
                   | Some t \<Rightarrow>
                       Returns (s1\<lparr>queues := (queues s1)(qid := q\<lparr>runs := (runs q)(priority := c), ready := t\<rparr>)\<rparr>))))"

text \<open>\<open>Queue.AddRun\<close>.\<close>

definition AddRun :: "addr option \<Rightarrow> nat \<Rightarrow> grader \<Rightarrow> grader outcome" where
  "AddRun run qid s = enqueueBlocking run qid s"

text \<open>
  The scan of \<open>GetRun\<close>: \<open>for i := range queue.runs\<close> with a non-waiting receive on each
  channel; the first run received is handed to the monitor. Falling out of the loop reaches
  \<open>panic("unreachable")\<close>.
\<close>

fun GetRun_scan ::
  "QueuePriority list \<Rightarrow> string \<Rightarrow> nat \<Rightarrow> grader \<Rightarrow> ((addr option \<times> InflightRun option \<times> bool) \<times> grader) outcome" where
  "GetRun_scan [] runner qid s = Panics Unreachable"
| "GetRun_scan (i # rest) runner qid s =
     (let q = queues s qid
      in case try_recv (runs q i) of
           Some (r, c) \<Rightarrow>
             (let s1 = s\<lparr>queues := (queues s)(qid := q\<lparr>runs := (runs q)(i := c)\<rparr>)\<rparr>;
                  (inflight, s2) = monitor_Add r runner s1
              in Returns ((Some r, Some inflight, True), s2))
         | None \<Rightarrow> GetRun_scan rest runner qid s)"

text \<open>
  \<open>Queue.GetRun\<close>. The first \<open>select\<close> waits for the close notifier or for a readiness
  token; \<open>closeNotifier\<close> says whether the notifier has fired, and \<open>pickClose\<close> is the choice
  Go makes when both branches are ready.
\<close>

definition GetRun ::
  "string \<Rightarrow> bool \<Rightarrow> bool \<Rightarrow> nat \<Rightarrow> grader \<Rightarrow> ((addr option \<times> InflightRun option \<times> bool) \<times> grader) outcome" where
  "GetRun runner closeNotifier pickClose qid s =
     (let q = queues s qid
      in case try_recv (ready q) of
           None \<Rightarrow> (if closeNotifier then Returns ((None, None, False), s) else Blocks)
         | Some (u, t) \<Rightarrow>
             (if closeNotifier \<and> pickClose then Returns ((None, None, False), s)
              else GetRun_scan [QueuePriorityHigh, QueuePriorityNormal, QueuePriorityLow] runner qid
                     (s\<lparr>queues := (queues s)(qid := q\<lparr>ready := t\<rparr>)\<rparr>)))"

text \<open>
  \<open>RunContext.Requeue(lastAttempt)\<close>. A nil \<open>run.queue\<close> makes the call of \<open>enqueue\<close> read
  through a nil pointer.
\<close>

definition Requeue :: "close_io \<Rightarrow> bool \<Rightarrow> addr \<Rightarrow> grader \<Rightarrow> (bool \<times> grader) outcome" where
  "Requeue io lastAttempt r s =
     (let s1 = (if rc_monitor (heap s r) then monitor_Remove (rc_AttemptID (heap s r)) s else s);
          s2 = s1\<lparr>heap := (heap s1)(r := (heap s1 r)\<lparr>rc_tries := rc_tries (heap s1 r) - 1\<rparr>)\<rparr>
      in if rc_tries (heap s2 r) \<le> 0
         then bind_outcome (Close io r s2) (\<lambda>s3. Returns (False, s3))
         else
           let s3 = (if lastAttempt
                     then s2\<lparr>heap := (heap s2)(r := (heap s2 r)\<lparr>rc_tries := 1\<rparr>)\<rparr>
                     else s2);
               s4 = UpdateAttemptID r s3
           in (case rc_queue (heap s4 r) of
                 None \<Rightarrow> Panics NilDereference
               | Some qid \<Rightarrow>
                   bind_outcome (enqueue (Some r) QueuePriorityHigh qid s4)
                     (\<lambda>(ok, s5).
                        if \<not> ok
                        then bind_outcome (Close io r s5) (\<lambda>s6. Returns (False, s6))
                        else Returns (True, s5))))"

text \<open>
  Calling \<open>Requeue(false)\<close> on the same run \<open>k\<close> times in a row, as the supervisor task does
  on each timeout: the results of the calls, in order, and the final state.
\<close>

fun Requeue_times :: "nat \<Rightarrow> close_io \<Rightarrow> addr \<Rightarrow> grader \<Rightarrow> (bool list \<times> grader) outcome" where
  "Requeue_times 0 io r s = Returns ([], s)"
| "Requeue_times (Suc k) io r s =
     bind_outcome (Requeue io False r s)
       (\<lambda>(ok, s1). bind_outcome (Requeue_times k io r s1) (\<lambda>(oks, s2). Returns (ok # oks, s2)))"

text \<open>
  The grader at start-up, as \<open>NewQueueManager(channelLength)\<close> and \<open>NewInflightMonitor\<close>
  leave it: empty queues, an empty mapping, no run context allocated yet.
\<close>

definition initial_grader :: "nat \<Rightarrow> grader" where
  "initial_grader channelLength =
     \<lparr>heap = (\<lambda>a. \<lparr>rc_GUID = [], rc_ProblemName = [], rc_InputHash = [], rc_AttemptID = 0,
                     rc_Verdict = [], rc_Priority = QueuePriorityHigh, rc_closed = 0,
                     rc_input = None, rc_tries = 0, rc_queue = None, rc_monitor = False,
                     rc_ready = False\<rparr>),
      next_addr = 0,
      queues = (\<lambda>qid. new_Queue ''default'' channelLength),
      mapping = (\<lambda>a. None),
      finishedRuns = [],
      released = [],
      persisted = [],
      last_attempt = 0\<rparr>"

text \<open>
  A fresh run context with \<open>MaxGradeRetries\<close> tries, added to queue 0 of the grader at
  start-up.
\<close>

definition queued_run :: "int \<Rightarrow> nat \<Rightarrow> (addr \<times> grader) outcome" where
  "queued_run MaxGradeRetries channelLength =
     (let (r, s1) = NewEmptyRunContext MaxGradeRetries (initial_grader channelLength)
      in bind_outcome (AddRun (Some r) 0 s1) (\<lambda>s2. Returns (r, s2)))"

text \<open>What a sequence of \<open>Requeue\<close> calls shows of run \<open>r\<close>: the results of the calls, the
  flag \<open>closed\<close>, the tries left, the runs waiting at high priority in queue \<open>qid\<close> and
  the artifacts persisted.\<close>

fun observe_requeues ::
  "addr \<Rightarrow> nat \<Rightarrow> (bool list \<times> grader) outcome \<Rightarrow>
   (bool list \<times> 32 word \<times> int \<times> addr list \<times> (addr \<times> artifact) list) outcome" where
  "observe_requeues r qid (Panics p) = Panics p"
| "observe_requeues r qid Blocks = Blocks"
| "observe_requeues r qid (Returns (oks, s)) =
     Returns (oks, rc_closed (heap s r), rc_tries (heap s r),
              buf (runs (queues s qid) QueuePriorityHigh), persisted s)"

text \<open>Every file-system step of \<open>Close\<close> succeeds.\<close>

definition all_ok :: close_io where
  "all_ok = \<lparr>mkdir_ok = True, details_ok = True, logs_ok = True, tracing_ok = True\<rparr>"

text \<open>
  A fresh run context with \<open>MaxGradeRetries\<close> tries is added to queue 0 of the grader at
  start-up and then requeued \<open>k\<close> times.
\<close>

definition queue_then_requeue :: "int \<Rightarrow> nat \<Rightarrow> nat \<Rightarrow> close_io \<Rightarrow> (bool list \<times> grader) outcome" where
  "queue_then_requeue MaxGradeRetries channelLength k io =
     bind_outcome (queued_run MaxGradeRetries channelLength) (\<lambda>(r, s). Requeue_times k io r s)"

text \<open>The artifacts one effective \<open>Close\<close> of run \<open>r\<close> persists when its verdict is \<open>v\<close>.\<close>

definition close_artifacts :: "close_io \<Rightarrow> addr \<Rightarrow> string \<Rightarrow> (addr \<times> artifact) list" where
  "close_artifacts io r v =
     (if \<not> mkdir_ok io \<or> \<not> details_ok io then []
      else (r, DetailsJson v) #
           (if \<not> logs_ok io then []
            else (r, LogsGz) # (if \<not> tracing_ok io then [] else [(r, TracingGz)])))"

text \<open>
  The invariant of a queue created for \<open>n = channelLength\<close>: as many readiness tokens as
  runs in the three channels, and every channel within its capacity.
\<close>

definition queue_inv :: "nat \<Rightarrow> Queue \<Rightarrow> bool" where
  "queue_inv n q \<longleftrightarrow>
     chan_len (ready q) =
       chan_len (runs q QueuePriorityHigh) + chan_len (runs q QueuePriorityNormal) +
       chan_len (runs q QueuePriorityLow) \<and>
     cap (ready q) = 3 * n \<and>
     cap (runs q QueuePriorityHigh) = n \<and> chan_len (runs q QueuePriorityHigh) \<le> n \<and>
     cap (runs q QueuePriorityNormal) = n \<and> chan_len (runs q QueuePriorityNormal) \<le> n \<and>
     cap (runs q QueuePriorityLow) = n \<and> chan_len (runs q QueuePriorityLow) \<le> n"

text \<open>The highest priority whose channel holds a run (low when none does).\<close>

definition highest_nonempty :: "Queue \<Rightarrow> QueuePriority" where
  "highest_nonempty q =
     (if buf (runs q QueuePriorityHigh) \<noteq> [] then QueuePriorityHigh
      else if buf (runs q QueuePriorityNormal) \<noteq> [] then QueuePriorityNormal
      else QueuePriorityLow)"

section \<open>Grader: interleaved calls on one queue\<close>

text \<open>
  The calls above run to their end one after the other. In the grader they run in
  concurrent tasks, and what can interleave are their channel operations. The state below
  keeps, for one queue created for \<open>channelLength = n\<close>: the runs in the three channels,
  the number of readiness tokens, the number of \<open>enqueue\<close> or \<open>enqueueBlocking\<close> calls that
  have sent their run and not yet their token, and for each priority the number of
  \<open>GetRun\<close> calls that hold a token and are about to try the channel of that priority.
\<close>

record interleaving =
  il_runs :: "QueuePriority \<Rightarrow> addr list"
  il_ready :: nat
  il_sending :: nat
  il_scanning :: "QueuePriority \<Rightarrow> nat"

text \<open>No run, no token, no call under way.\<close>

definition il_start :: interleaving where
  "il_start = \<lparr>il_runs = (\<lambda>p. []), il_ready = 0, il_sending = 0, il_scanning = (\<lambda>p. 0)\<rparr>"

text \<open>
  One channel operation of one task: the send of a run (possible while the channel has
  room), the send of the token that follows it (possible while \<open>ready\<close> has room), the
  receive of a token by \<open>GetRun\<close>, the receive of a run by a scanning \<open>GetRun\<close>, and the
  \<open>default\<close> branch of the scan on an empty high or normal channel. The \<open>default\<close> branch
  on an empty low channel would lead to \<open>panic("unreachable")\<close>; it is not a step.
\<close>

inductive il_step :: "nat \<Rightarrow> interleaving \<Rightarrow> interleaving \<Rightarrow> bool" for n :: nat where
  send_run:
    "length (il_runs c p) < n \<Longrightarrow>
     il_step n c (c\<lparr>il_runs := (il_runs c)(p := il_runs c p @ [r]), il_sending := Suc (il_sending c)\<rparr>)"
| send_token:
    "il_sending c = Suc k \<Longrightarrow> il_ready c < 3 * n \<Longrightarrow>
     il_step n c (c\<lparr>il_ready := Suc (il_ready c), il_sending := k\<rparr>)"
| receive_token:
    "il_ready c = Suc k \<Longrightarrow>
     il_step n c (c\<lparr>il_ready := k,
        il_scanning := (il_scanning c)(QueuePriorityHigh := Suc (il_scanning c QueuePriorityHigh))\<rparr>)"
| receive_run:
    "il_scanning c p = Suc k \<Longrightarrow> il_runs c p = r # rs \<Longrightarrow>
     il_step n c (c\<lparr>il_runs := (il_runs c)(p := rs), il_scanning := (il_scanning c)(p := k)\<rparr>)"
| skip_high:
    "il_scanning c QueuePriorityHigh = Suc k \<Longrightarrow> il_runs c QueuePriorityHigh = [] \<Longrightarrow>
     il_step n c (c\<lparr>il_scanning := (il_scanning c)
        (QueuePriorityHigh := k, QueuePriorityNormal := Suc (il_scanning c QueuePriorityNormal))\<rparr>)"
| skip_normal:
    "il_scanning c QueuePriorityNormal = Suc k \<Longrightarrow> il_runs c QueuePriorityNormal = [] \<Longrightarrow>
     il_step n c (c\<lparr>il_scanning := (il_scanning c)
        (QueuePriorityNormal := k, QueuePriorityLow := Suc (il_scanning c QueuePriorityLow))\<rparr>)"

inductive il_reachable :: "nat \<Rightarrow> interleaving \<Rightarrow> bool" for n :: nat where
  start: "il_reachable n il_start"
| step: "il_reachable n c \<Longrightarrow> il_step n c c' \<Longrightarrow> il_reachable n c'"

text \<open>
  The invariant of the interleaved executions: every run in a channel is matched by a
  token, by a sender that still owes its token, or by a \<open>GetRun\<close> that holds one; the calls
  that have passed the high channel are matched by runs in the normal and low channels, and
  those that have passed the normal channel by runs in the low channel.
\<close>

definition il_inv :: "nat \<Rightarrow> interleaving \<Rightarrow> bool" where
  "il_inv n c \<longleftrightarrow>
     il_ready c + il_sending c + il_scanning c QueuePriorityHigh +
       il_scanning c QueuePriorityNormal + il_scanning c QueuePriorityLow =
     length (il_runs c QueuePriorityHigh) + length (il_runs c QueuePriorityNormal) +
       length (il_runs c QueuePriorityLow) \<and>
     il_scanning c QueuePriorityNormal + il_scanning c QueuePriorityLow \<le>
       length (il_runs c QueuePriorityNormal) + length (il_runs c QueuePriorityLow) \<and>
     il_scanning c QueuePriorityLow \<le> length (il_runs c QueuePriorityLow) \<and>
     length (il_runs c QueuePriorityHigh) \<le> n \<and> length (il_runs c QueuePriorityNormal) \<le> n \<and>
     length (il_runs c QueuePriorityLow) \<le> n"

section \<open>Grader: injecting runs (cmd/omegaup-grader, v1 compatibility)\<close>

text \<open>
  The collaborators of \<open>v1CompatNewRunContext\<close> and \<open>v1CompatInjectRuns\<close>: the database row
  of a run (of which the model keeps the problem alias), the problem information of the
  repository (input hash and settings), the stored submission, the input manager, and the
  configured \<open>MaxGradeRetries\<close>.
\<close>

record inject_env =
  db_run :: "string \<Rightarrow> go_error + string"
  problem_information :: "string \<Rightarrow> go_error + (string \<times> ProblemSettings)"
  read_submission :: "string \<Rightarrow> go_error + string"
  input_add :: "string \<Rightarrow> go_error + nat"
  MaxGradeRetries :: int

text \<open>
  \<open>v1CompatNewRunContext\<close>: \<open>(runCtx, settings, err)\<close> and the state, in which the context
  has been allocated. \<open>guid[:2]\<close> panics on a GUID shorter than two bytes.
\<close>

definition v1CompatNewRunContext ::
  "inject_env \<Rightarrow> string \<Rightarrow> grader \<Rightarrow> ((go_error + addr \<times> ProblemSettings) \<times> grader) outcome" where
  "v1CompatNewRunContext env guid s =
     (let (r, s1) = NewEmptyRunContext (MaxGradeRetries env) s;
          s2 = s1\<lparr>heap := (heap s1)(r := (heap s1 r)\<lparr>rc_GUID := guid\<rparr>)\<rparr>
      in if length guid < 2 then Panics SliceBoundsOutOfRange
         else case db_run env guid of
           Inl err \<Rightarrow> Returns (Inl err, s2)
         | Inr problemName \<Rightarrow>
             let s3 = s2\<lparr>heap := (heap s2)(r := (heap s2 r)\<lparr>rc_ProblemName := problemName\<rparr>)\<rparr>
             in case problem_information env problemName of
                  Inl err \<Rightarrow> Returns (Inl err, s3)
                | Inr (inputHash, settings) \<Rightarrow>
                    (case read_submission env guid of
                       Inl err \<Rightarrow> Returns (Inl err, s3)
                     | Inr contents \<Rightarrow>
                         Returns (Inr (r, settings),
                           s3\<lparr>heap := (heap s3)(r := (heap s3 r)\<lparr>rc_InputHash := inputHash\<rparr>)\<rparr>)))"

text \<open>\<open>AddRunContext\<close>: pins the input; it always returns nil.\<close>

definition AddRunContext :: "addr \<Rightarrow> nat \<Rightarrow> grader \<Rightarrow> grader" where
  "AddRunContext r input s = s\<lparr>heap := (heap s)(r := (heap s r)\<lparr>rc_input := Some input\<rparr>)\<rparr>"

text \<open>
  \<open>v1CompatInjectRuns(ctx, runs, db, guids, priority)\<close> with \<open>runs\<close> the queue \<open>qid\<close>: the
  error returned (\<open>None\<close> for nil) and the state.
\<close>

fun v1CompatInjectRuns ::
  "inject_env \<Rightarrow> nat \<Rightarrow> string list \<Rightarrow> QueuePriority \<Rightarrow> grader \<Rightarrow> (go_error option \<times> grader) outcome" where
  "v1CompatInjectRuns env qid [] priority s = Returns (None, s)"
| "v1CompatInjectRuns env qid (guid # guids) priority s =
     bind_outcome (v1CompatNewRunContext env guid s)
       (\<lambda>(res, s1).
          case res of
            Inl err \<Rightarrow> Returns (Some err, s1)
          | Inr (r, settings) \<Rightarrow>
              let s2 = (if Slow settings
                        then s1\<lparr>heap := (heap s1)(r := (heap s1 r)\<lparr>rc_Priority := QueuePriorityLow\<rparr>)\<rparr>
                        else s1\<lparr>heap := (heap s1)(r := (heap s1 r)\<lparr>rc_Priority := priority\<rparr>)\<rparr>)
              in case input_add env (rc_InputHash (heap s2 r)) of
                   Inl err \<Rightarrow> Returns (Some err, s2)
                 | Inr input \<Rightarrow>
                     bind_outcome (AddRun (Some r) qid (AddRunContext r input s2))
                       (\<lambda>s3. v1CompatInjectRuns env qid guids priority s3))"

text \<open>
  Run \<open>a\<close>, found in the channel of priority \<open>p\<close>, was injected for one of \<open>guids\<close>: it
  carries that GUID, its priority is \<open>p\<close>, and \<open>p\<close> is low when the settings of its problem
  are marked slow and the requested priority otherwise.
\<close>

definition injected_as ::
  "inject_env \<Rightarrow> string list \<Rightarrow> QueuePriority \<Rightarrow> grader \<Rightarrow> addr \<Rightarrow> QueuePriority \<Rightarrow> bool" where
  "injected_as env guids priority s a p \<longleftrightarrow>
     (\<exists>guid \<in> set guids. \<exists>name hash settings.
        db_run env guid = Inr name \<and> problem_information env name = Inr (hash, settings) \<and>
        rc_GUID (heap s a) = guid \<and> rc_Priority (heap s a) = p \<and>
        p = (if Slow settings then QueuePriorityLow else priority))"

text \<open>What an injection shows: the error, the three channels of queue \<open>qid\<close>, and GUID
  and priority of every run context allocated so far.\<close>

fun observe_injection ::
  "nat \<Rightarrow> (go_error option \<times> grader) outcome \<Rightarrow>
   (go_error option \<times> addr list \<times> addr list \<times> addr list \<times> (string \<times> QueuePriority) list) outcome" where
  "observe_injection qid (Panics p) = Panics p"
| "observe_injection qid Blocks = Blocks"
| "observe_injection qid (Returns (err, s)) =
     Returns (err, buf (runs (queues s qid) QueuePriorityHigh),
              buf (runs (queues s qid) QueuePriorityNormal),
              buf (runs (queues s qid) QueuePriorityLow),
              map (\<lambda>a. (rc_GUID (heap s a), rc_Priority (heap s a))) [0..<next_addr s])"

text \<open>Collaborators for which every lookup succeeds and every problem is slow.\<close>

definition slow_env :: inject_env where
  "slow_env =
     \<lparr>db_run = (\<lambda>guid. Inr ''sumas''),
      problem_information = (\<lambda>name. Inr (''hash'',
         \<lparr>Cases = [],
          Limits = \<lparr>ExtraWallTime = 0, MemoryLimit = 0, OutputLimit = 0,
                    OverallWallTimeLimit = 0, TimeLimit = 0\<rparr>,
          Slow = True,
          Validator = \<lparr>v_Lang = None, v_Name = ''token'', v_Tolerance = None, v_Limits = None\<rparr>\<rparr>)),
      read_submission = (\<lambda>guid. Inr ''source''),
      input_add = (\<lambda>hash. Inr 0),
      MaxGradeRetries = 3\<rparr>"

section \<open>Properties of the verdict algebra\<close>

lemma first_pos_le: "first_pos xs a \<le> length xs"
  by (induction xs) auto

lemma first_pos_less: "a \<in> set xs \<Longrightarrow> first_pos xs a < length xs"
  by (induction xs) auto

lemma first_pos_length: "a \<notin> set xs \<Longrightarrow> first_pos xs a = length xs"
  by (induction xs) auto

lemma first_pos_nth: "a \<in> set xs \<Longrightarrow> xs ! first_pos xs a = a"
  by (induction xs) auto

lemma first_pos_before: "k < first_pos xs a \<Longrightarrow> xs ! k \<noteq> a"
proof (induction xs arbitrary: k)
  case Nil
  then show ?case by simp
next
  case (Cons x xs)
  then show ?case by (cases k) (auto split: if_splits)
qed

lemma first_pos_distinct_nth: "distinct xs \<Longrightarrow> k < length xs \<Longrightarrow> first_pos xs (xs ! k) = k"
proof (induction xs arbitrary: k)
  case Nil
  then show ?case by simp
next
  case (Cons x xs)
  then show ?case by (cases k) auto
qed

text \<open>The loop of \<open>sliceIndex\<close>, entered at \<open>k\<close> not beyond the first occurrence.\<close>

lemma sliceIndex_loop_first_pos:
  "k \<le> first_pos xs a \<Longrightarrow>
   sliceIndex_loop (int k) (int (length xs)) (\<lambda>i. xs ! nat i = a) =
     (if a \<in> set xs then int (first_pos xs a) else - 1)"
proof (induction "first_pos xs a - k" arbitrary: k)
  case 0
  then have k: "k = first_pos xs a" by simp
  show ?case
  proof (cases "a \<in> set xs")
    case True
    then show ?thesis
      using first_pos_less [OF True] first_pos_nth [OF True]
      by (subst sliceIndex_loop.simps) (simp add: k)
  next
    case False
    then show ?thesis
      using first_pos_length [OF False]
      by (subst sliceIndex_loop.simps) (simp add: k)
  qed
next
  case (Suc d)
  then have lt: "k < first_pos xs a" by simp
  then have neq: "xs ! k \<noteq> a" by (rule first_pos_before)
  have klen: "k < length xs" using lt first_pos_le [of xs a] by simp
  have step: "sliceIndex_loop (int k) (int (length xs)) (\<lambda>i. xs ! nat i = a) =
              sliceIndex_loop (int (Suc k)) (int (length xs)) (\<lambda>i. xs ! nat i = a)"
    using neq klen by (subst sliceIndex_loop.simps) (simp add: add.commute)
  have "d = first_pos xs a - Suc k" using Suc.hyps(2) by simp
  moreover have "Suc k \<le> first_pos xs a" using lt by simp
  ultimately show ?case using Suc.hyps(1) [of "Suc k"] step by simp
qed

lemma sliceIndex_first_pos:
  "sliceIndex (int (length xs)) (\<lambda>i. xs ! nat i = a) =
     (if a \<in> set xs then int (first_pos xs a) else - 1)"
  using sliceIndex_loop_first_pos [of 0 xs a] by (simp add: sliceIndex_def)

lemma distinct_verdictList: "distinct verdictList"
  by (simp add: verdictList_def)

lemma length_verdictList: "length verdictList = 11"
  by (simp add: verdictList_def)

lemma verdictIndex_less: "a \<in> set verdictList \<Longrightarrow> verdictIndex a < 11"
  using first_pos_less [of a verdictList] by (simp add: verdictIndex_def length_verdictList)

lemma verdictIndex_nth: "k < 11 \<Longrightarrow> verdictIndex (verdictList ! k) = k"
  using first_pos_distinct_nth [OF distinct_verdictList, of k]
  by (simp add: verdictIndex_def length_verdictList)

lemma nth_verdictIndex: "a \<in> set verdictList \<Longrightarrow> verdictList ! verdictIndex a = a"
  by (simp add: verdictIndex_def first_pos_nth)

lemma worseVerdict_known:
  assumes "a \<in> set verdictList" and "b \<in> set verdictList"
  shows "worseVerdict a b = Inr (verdictList ! min (verdictIndex a) (verdictIndex b))"
proof -
  have ia: "sliceIndex (int (length verdictList)) (\<lambda>i. verdictList ! nat i = a) = int (verdictIndex a)"
    using assms(1) by (simp add: sliceIndex_first_pos verdictIndex_def)
  have ib: "sliceIndex (int (length verdictList)) (\<lambda>i. verdictList ! nat i = b) = int (verdictIndex b)"
    using assms(2) by (simp add: sliceIndex_first_pos verdictIndex_def)
  have m: "min_go (int (verdictIndex a)) (int (verdictIndex b)) = int (min (verdictIndex a) (verdictIndex b))"
    by (simp add: min_go_def min_def)
  have lt: "min (verdictIndex a) (verdictIndex b) < length verdictList"
    using verdictIndex_less [OF assms(1)] by (simp add: length_verdictList)
  show ?thesis
    unfolding worseVerdict_def Let_def ia ib m index_go_def using lt by simp
qed

lemma worseVerdict_unknown:
  assumes "a \<notin> set verdictList \<or> b \<notin> set verdictList"
  shows "worseVerdict a b = Inl IndexOutOfRange"
proof -
  let ?ia = "sliceIndex (int (length verdictList)) (\<lambda>i. verdictList ! nat i = a)"
  let ?ib = "sliceIndex (int (length verdictList)) (\<lambda>i. verdictList ! nat i = b)"
  have ge: "- 1 \<le> ?ia" "- 1 \<le> ?ib" by (simp_all add: sliceIndex_first_pos)
  have "?ia = - 1 \<or> ?ib = - 1" using assms by (auto simp: sliceIndex_first_pos)
  then have "min_go ?ia ?ib = - 1" using ge by (auto simp: min_go_def)
  then show ?thesis by (simp add: worseVerdict_def Let_def index_go_def)
qed

lemma worseVerdict_known_mem:
  assumes "a \<in> set verdictList" and "b \<in> set verdictList"
  shows "verdictList ! min (verdictIndex a) (verdictIndex b) \<in> set verdictList"
  using verdictIndex_less [OF assms(1)] by (simp add: length_verdictList)


lemma worseVerdict_assoc_known:
  assumes "a \<in> set verdictList" and "b \<in> set verdictList" and "c \<in> set verdictList"
  shows "bind_panic (worseVerdict a b) (\<lambda>x. worseVerdict x c) =
           bind_panic (worseVerdict b c) (\<lambda>y. worseVerdict a y)"
proof -
  have ab: "worseVerdict a b = Inr (verdictList ! min (verdictIndex a) (verdictIndex b))"
    using assms(1,2) by (rule worseVerdict_known)
  have bc: "worseVerdict b c = Inr (verdictList ! min (verdictIndex b) (verdictIndex c))"
    using assms(2,3) by (rule worseVerdict_known)
  have abm: "verdictList ! min (verdictIndex a) (verdictIndex b) \<in> set verdictList"
    using assms(1,2) by (rule worseVerdict_known_mem)
  have bcm: "verdictList ! min (verdictIndex b) (verdictIndex c) \<in> set verdictList"
    using assms(2,3) by (rule worseVerdict_known_mem)
  have iab: "verdictIndex (verdictList ! min (verdictIndex a) (verdictIndex b)) =
             min (verdictIndex a) (verdictIndex b)"
    using verdictIndex_less [OF assms(1)] by (intro verdictIndex_nth) simp
  have ibc: "verdictIndex (verdictList ! min (verdictIndex b) (verdictIndex c)) =
             min (verdictIndex b) (verdictIndex c)"
    using verdictIndex_less [OF assms(2)] by (intro verdictIndex_nth) simp
  show ?thesis
    by (simp add: ab bc worseVerdict_known [OF abm assms(3)] worseVerdict_known [OF assms(1) bcm]
        iab ibc min.assoc)
qed

lemma worseVerdict_comm_known:
  assumes "a \<in> set verdictList" and "b \<in> set verdictList"
  shows "worseVerdict a b = worseVerdict b a"
  by (simp add: worseVerdict_known [OF assms] worseVerdict_known [OF assms(2,1)] min.commute)

lemma worseVerdict_idem_known:
  assumes "a \<in> set verdictList"
  shows "worseVerdict a a = Inr a"
  by (simp add: worseVerdict_known [OF assms assms] nth_verdictIndex [OF assms])

lemma worseVerdicts_known:
  assumes "set (v # vs) \<subseteq> set verdictList"
  shows "worseVerdicts v vs = Inr (verdictList ! Min (verdictIndex ` set (v # vs)))"
  using assms
proof (induction vs arbitrary: v)
  case Nil
  then show ?case by (simp add: nth_verdictIndex)
next
  case (Cons u us)
  let ?w = "verdictList ! min (verdictIndex v) (verdictIndex u)"
  have v: "v \<in> set verdictList" and u: "u \<in> set verdictList" using Cons.prems by auto
  have w: "?w \<in> set verdictList" using v u by (rule worseVerdict_known_mem)
  have iw: "verdictIndex ?w = min (verdictIndex v) (verdictIndex u)"
    using verdictIndex_less [OF v] by (intro verdictIndex_nth) simp
  have "set (?w # us) \<subseteq> set verdictList" using w Cons.prems by auto
  then have "worseVerdicts ?w us = Inr (verdictList ! Min (verdictIndex ` set (?w # us)))"
    by (rule Cons.IH)
  moreover have "Min (verdictIndex ` set (?w # us)) = Min (verdictIndex ` set (v # u # us))"
  proof (cases "us = []")
    case True
    then show ?thesis by (simp add: iw)
  next
    case False
    then show ?thesis by (simp add: iw min.assoc)
  qed
  ultimately show ?case by (simp add: worseVerdict_known [OF v u])
qed

lemma worst_verdict_occurs:
  assumes "set (v # vs) \<subseteq> set verdictList"
  shows "verdictList ! Min (verdictIndex ` set (v # vs)) \<in> set (v # vs)"
proof -
  have "Min (verdictIndex ` set (v # vs)) \<in> verdictIndex ` set (v # vs)"
    by (rule Min_in) simp_all
  then obtain x where x: "x \<in> set (v # vs)"
    and m: "Min (verdictIndex ` set (v # vs)) = verdictIndex x"
    by blast
  have "x \<in> set verdictList" using x assms by blast
  then show ?thesis using x by (simp only: m nth_verdictIndex)
qed

text \<open>
  C8. Over the eleven known verdict strings \<open>worseVerdict\<close> never panics and is associative,
  commutative and idempotent; folding it over a non-empty sequence \<open>v # vs\<close> of known case
  verdicts returns the verdict of the sequence with the smallest index in \<open>verdictList\<close>,
  which is one of the verdicts of the sequence.
\<close>

theorem worseVerdict_algebra:
  assumes "a \<in> set verdictList" and "b \<in> set verdictList" and "c \<in> set verdictList"
    and "set (v # vs) \<subseteq> set verdictList"
  shows "bind_panic (worseVerdict a b) (\<lambda>x. worseVerdict x c) =
           bind_panic (worseVerdict b c) (\<lambda>y. worseVerdict a y) \<and>
         worseVerdict a b = worseVerdict b a \<and>
         worseVerdict a a = Inr a \<and>
         worseVerdicts v vs = Inr (verdictList ! Min (verdictIndex ` set (v # vs))) \<and>
         verdictList ! Min (verdictIndex ` set (v # vs)) \<in> set (v # vs)"
  using worseVerdict_assoc_known [OF assms(1,2,3)] worseVerdict_comm_known [OF assms(1,2)]
    worseVerdict_idem_known [OF assms(1)] worseVerdicts_known [OF assms(4)]
    worst_verdict_occurs [OF assms(4)]
  by (intro conjI)

theorem worseVerdict_algebra_witness:
  "(''WA'' \<in> set verdictList \<and> ''AC'' \<in> set verdictList \<and> ''TLE'' \<in> set verdictList \<and>
    set (''OK'' # [''PA'', ''RTE'']) \<subseteq> set verdictList) \<and>
   (bind_panic (worseVerdict ''WA'' ''AC'') (\<lambda>x. worseVerdict x ''TLE'') =
      bind_panic (worseVerdict ''AC'' ''TLE'') (\<lambda>y. worseVerdict ''WA'' y) \<and>
    worseVerdict ''WA'' ''AC'' = worseVerdict ''AC'' ''WA'' \<and>
    worseVerdict ''WA'' ''WA'' = Inr ''WA'' \<and>
    worseVerdicts ''OK'' [''PA'', ''RTE''] =
      Inr (verdictList ! Min (verdictIndex ` set (''OK'' # [''PA'', ''RTE'']))) \<and>
    verdictList ! Min (verdictIndex ` set (''OK'' # [''PA'', ''RTE''])) \<in>
      set (''OK'' # [''PA'', ''RTE''])) \<and>
   verdictList ! Min (verdictIndex ` set (''OK'' # [''PA'', ''RTE''])) = ''RTE''"
proof -
  have k: "''WA'' \<in> set verdictList" "''AC'' \<in> set verdictList" "''TLE'' \<in> set verdictList"
    "set (''OK'' # [''PA'', ''RTE'']) \<subseteq> set verdictList"
    by (simp_all add: verdictList_def)
  have r: "verdictList ! Min (verdictIndex ` set (''OK'' # [''PA'', ''RTE''])) = ''RTE''"
    by (simp add: verdictList_def verdictIndex_def)
  show ?thesis
    using worseVerdict_algebra [OF k] k r by blast
qed

text \<open>
  C4 (counterexample). \<open>worseVerdict\<close> is not total: a string that is not a verdict gives index
  \<open>-1\<close>, which \<open>min\<close> selects, and \<open>verdictList[-1]\<close> panics.
\<close>

theorem worseVerdict_unknown_panics:
  "worseVerdict ''XX'' ''AC'' = Inl IndexOutOfRange"
  by (rule worseVerdict_unknown) (simp add: verdictList_def)

text \<open>
  C4 (amended). When both \<open>a\<close> and \<open>b\<close> are among the eleven verdict strings,
  \<open>worseVerdict a b\<close> returns \<open>verdictList[min(index a, index b)]\<close>; when one of them is not,
  the index \<open>-1\<close> of the unknown string wins the minimum and the call panics with an index
  out of range, so no verdict is returned.
\<close>

theorem worseVerdict_total_on_known_only:
  "(a \<in> set verdictList \<and> b \<in> set verdictList \<longrightarrow>
      worseVerdict a b = Inr (verdictList ! min (verdictIndex a) (verdictIndex b)) \<and>
      min (verdictIndex a) (verdictIndex b) < length verdictList) \<and>
   (a \<notin> set verdictList \<or> b \<notin> set verdictList \<longrightarrow> worseVerdict a b = Inl IndexOutOfRange)"
proof (intro conjI impI)
  assume k: "a \<in> set verdictList \<and> b \<in> set verdictList"
  then show "worseVerdict a b = Inr (verdictList ! min (verdictIndex a) (verdictIndex b))"
    by (simp add: worseVerdict_known)
  show "min (verdictIndex a) (verdictIndex b) < length verdictList"
    using k verdictIndex_less [of a] by (simp add: length_verdictList)
next
  assume "a \<notin> set verdictList \<or> b \<notin> set verdictList"
  then show "worseVerdict a b = Inl IndexOutOfRange" by (rule worseVerdict_unknown)
qed

theorem worseVerdict_total_on_known_only_witness:
  "''TLE'' \<in> set verdictList \<and> ''WA'' \<in> set verdictList \<and> ''VE'' \<notin> set verdictList \<and>
   worseVerdict ''TLE'' ''WA'' = Inr ''TLE'' \<and>
   worseVerdict ''VE'' ''WA'' = Inl IndexOutOfRange"
proof -
  have k: "''TLE'' \<in> set verdictList \<and> ''WA'' \<in> set verdictList"
    and u: "''VE'' \<notin> set verdictList \<or> ''WA'' \<notin> set verdictList"
    by (simp_all add: verdictList_def)
  have r: "verdictList ! min (verdictIndex ''TLE'') (verdictIndex ''WA'') = ''TLE''"
    by (simp add: verdictList_def verdictIndex_def)
  show ?thesis
    using worseVerdict_total_on_known_only [of "''TLE''" "''WA''"]
      worseVerdict_total_on_known_only [of "''VE''" "''WA''"] k u r
    by (simp add: verdictList_def)
qed

section \<open>Properties of the priority queue\<close>

lemma new_Queue_inv: "queue_inv n (new_Queue name n)"
  by (simp add: queue_inv_def new_Queue_def make_chan_def chan_len_def)

lemma inv_cap: "queue_inv n q \<Longrightarrow> cap (runs q p) = n \<and> chan_len (runs q p) \<le> n"
  by (cases p) (simp_all add: queue_inv_def)

lemma enqueue_space:
  assumes inv: "queue_inv n (queues s qid)" and sp: "chan_len (runs (queues s qid) p) < n"
  shows "\<exists>s'. enqueue (Some r) p qid s = Returns (True, s') \<and>
           queue_inv n (queues s' qid) \<and>
           buf (runs (queues s' qid) p) = buf (runs (queues s qid) p) @ [r] \<and>
           (\<forall>p'. p' \<noteq> p \<longrightarrow> runs (queues s' qid) p' = runs (queues s qid) p') \<and>
           chan_len (ready (queues s' qid)) = Suc (chan_len (ready (queues s qid)))"
proof -
  have c: "cap (runs (queues s qid) p) = n" using inv_cap [OF inv] by simp
  have "chan_len (ready (queues s qid)) < 3 * n"
    using inv sp by (cases p) (auto simp: queue_inv_def)
  then have r: "length (buf (ready (queues s qid))) < cap (ready (queues s qid))"
    using inv by (simp add: queue_inv_def chan_len_def)
  show ?thesis
    using inv sp c r
    by (cases p) (auto simp: enqueue_def Let_def try_send_def queue_inv_def chan_len_def)
qed

lemma enqueue_full:
  assumes inv: "queue_inv n (queues s qid)" and sp: "\<not> chan_len (runs (queues s qid) p) < n"
  shows "\<exists>s'. enqueue (Some r) p qid s = Returns (False, s') \<and> queues s' = queues s"
proof -
  have c: "cap (runs (queues s qid) p) = n" using inv_cap [OF inv] by simp
  show ?thesis using sp c by (simp add: enqueue_def Let_def try_send_def chan_len_def)
qed


lemma enqueueBlocking_space:
  assumes inv: "queue_inv n (queues s qid)"
    and sp: "chan_len (runs (queues s qid) (rc_Priority (heap s r))) < n"
  shows "\<exists>s'. enqueueBlocking (Some r) qid s = Returns s' \<and>
           queue_inv n (queues s' qid) \<and>
           buf (runs (queues s' qid) (rc_Priority (heap s r))) =
             buf (runs (queues s qid) (rc_Priority (heap s r))) @ [r] \<and>
           (\<forall>p'. p' \<noteq> rc_Priority (heap s r) \<longrightarrow> runs (queues s' qid) p' = runs (queues s qid) p') \<and>
           chan_len (ready (queues s' qid)) = Suc (chan_len (ready (queues s qid)))"
proof -
  let ?p = "rc_Priority (heap s r)"
  have c: "cap (runs (queues s qid) ?p) = n" using inv_cap [OF inv] by simp
  have "chan_len (ready (queues s qid)) < 3 * n"
    using inv sp by (cases ?p) (auto simp: queue_inv_def)
  then have r: "length (buf (ready (queues s qid))) < cap (ready (queues s qid))"
    using inv by (simp add: queue_inv_def chan_len_def)
  show ?thesis
    using inv sp c r
    by (cases ?p) (auto simp: enqueueBlocking_def Let_def try_send_def queue_inv_def chan_len_def)
qed

lemma enqueueBlocking_full:
  assumes inv: "queue_inv n (queues s qid)"
    and sp: "\<not> chan_len (runs (queues s qid) (rc_Priority (heap s r))) < n"
  shows "enqueueBlocking (Some r) qid s = Blocks"
proof -
  have c: "cap (runs (queues s qid) (rc_Priority (heap s r))) = n" using inv_cap [OF inv] by simp
  show ?thesis using sp c by (simp add: enqueueBlocking_def Let_def try_send_def chan_len_def)
qed

lemma GetRun_cancel:
  assumes "closeNotifier" and "buf (ready (queues s qid)) = [] \<or> pickClose"
  shows "GetRun runner closeNotifier pickClose qid s = Returns ((None, None, False), s)"
  using assms by (auto simp: GetRun_def Let_def try_recv_def split: list.splits)

lemma GetRun_waits:
  assumes "\<not> closeNotifier" and "buf (ready (queues s qid)) = []"
  shows "GetRun runner closeNotifier pickClose qid s = Blocks"
  using assms by (auto simp: GetRun_def Let_def try_recv_def split: list.splits)

lemma GetRun_token:
  assumes inv: "queue_inv n (queues s qid)"
    and tok: "buf (ready (queues s qid)) \<noteq> []"
    and nc: "\<not> (closeNotifier \<and> pickClose)"
  shows "\<exists>s' inflight.
           GetRun runner closeNotifier pickClose qid s =
             Returns ((Some (hd (buf (runs (queues s qid) (highest_nonempty (queues s qid))))),
                       Some inflight, True), s') \<and>
           buf (runs (queues s qid) (highest_nonempty (queues s qid))) \<noteq> [] \<and>
           queue_inv n (queues s' qid) \<and>
           buf (runs (queues s' qid) (highest_nonempty (queues s qid))) =
             tl (buf (runs (queues s qid) (highest_nonempty (queues s qid)))) \<and>
           (\<forall>p'. p' \<noteq> highest_nonempty (queues s qid) \<longrightarrow>
                  runs (queues s' qid) p' = runs (queues s qid) p') \<and>
           Suc (chan_len (ready (queues s' qid))) = chan_len (ready (queues s qid))"
proof -
  let ?q = "queues s qid"
  obtain u t where ut: "buf (ready ?q) = u # t" using tok by (cases "buf (ready ?q)") auto
  have ne: "buf (runs ?q QueuePriorityHigh) \<noteq> [] \<or> buf (runs ?q QueuePriorityNormal) \<noteq> [] \<or>
            buf (runs ?q QueuePriorityLow) \<noteq> []"
    using inv ut by (auto simp: queue_inv_def chan_len_def)
  show ?thesis
  proof (cases "buf (runs ?q QueuePriorityHigh)")
    case (Cons x xs)
    then show ?thesis
      using inv ut nc
      by (auto simp: GetRun_def Let_def try_recv_def highest_nonempty_def monitor_Add_def
          queue_inv_def chan_len_def)
  next
    case hNil: Nil
    show ?thesis
    proof (cases "buf (runs ?q QueuePriorityNormal)")
      case (Cons x xs)
      then show ?thesis
        using inv ut nc hNil
        by (auto simp: GetRun_def Let_def try_recv_def highest_nonempty_def monitor_Add_def
            queue_inv_def chan_len_def)
    next
      case nNil: Nil
      then obtain x xs where l: "buf (runs ?q QueuePriorityLow) = x # xs"
        using ne hNil by (cases "buf (runs ?q QueuePriorityLow)") auto
      then show ?thesis
        using inv ut nc hNil nNil
        by (auto simp: GetRun_def Let_def try_recv_def highest_nonempty_def monitor_Add_def
            queue_inv_def chan_len_def)
    qed
  qed
qed

lemma GetRun_never_unreachable:
  assumes inv: "queue_inv n (queues s qid)"
  shows "GetRun runner closeNotifier pickClose qid s \<noteq> Panics Unreachable"
proof (cases "buf (ready (queues s qid)) = []")
  case True
  then show ?thesis
    by (cases closeNotifier) (simp_all add: GetRun_cancel GetRun_waits)
next
  case False
  show ?thesis
  proof (cases "closeNotifier \<and> pickClose")
    case True
    then show ?thesis by (simp add: GetRun_cancel)
  next
    case nc: False
    obtain s' inflight r where "GetRun runner closeNotifier pickClose qid s = Returns ((Some r, Some inflight, True), s')"
      using GetRun_token [OF inv False nc] by blast
    then show ?thesis by simp
  qed
qed

lemma il_step_inv:
  assumes "il_step n c c'" and "il_inv n c"
  shows "il_inv n c'"
  using assms
proof (cases rule: il_step.cases)
  case (send_run p r)
  then show ?thesis using assms(2) by (cases p) (auto simp: il_inv_def)
next
  case (send_token k)
  then show ?thesis using assms(2) by (auto simp: il_inv_def)
next
  case (receive_token k)
  then show ?thesis using assms(2) by (auto simp: il_inv_def)
next
  case (receive_run p k r rs)
  then show ?thesis using assms(2) by (cases p) (auto simp: il_inv_def)
next
  case (skip_high k)
  then show ?thesis using assms(2) by (auto simp: il_inv_def)
next
  case (skip_normal k)
  then show ?thesis using assms(2) by (auto simp: il_inv_def)
qed

lemma il_reachable_inv: "il_reachable n c \<Longrightarrow> il_inv n c"
proof (induction rule: il_reachable.induct)
  case start
  show ?case by (simp add: il_inv_def il_start_def)
next
  case (step c c')
  then show ?case using il_step_inv by blast
qed

lemma il_no_panic:
  assumes "il_reachable n c"
  shows "\<not> (il_scanning c QueuePriorityLow > 0 \<and> il_runs c QueuePriorityLow = [])"
  using il_reachable_inv [OF assms] by (auto simp: il_inv_def)

lemma il_token_room:
  assumes "il_reachable n c" and "il_sending c > 0"
  shows "il_ready c < 3 * n"
  using il_reachable_inv [OF assms(1)] assms(2) by (auto simp: il_inv_def)

lemma il_quiescent:
  assumes "il_reachable n c" and "il_sending c = 0" and "\<forall>p. il_scanning c p = 0"
  shows "il_ready c = length (il_runs c QueuePriorityHigh) + length (il_runs c QueuePriorityNormal) +
           length (il_runs c QueuePriorityLow)"
  using il_reachable_inv [OF assms(1)] assms(2,3) by (auto simp: il_inv_def)

text \<open>
  C9. A queue created for \<open>channelLength = n\<close> satisfies the invariant (as many readiness
  tokens as runs in the three channels), and every call keeps it. \<open>enqueue\<close> returns true
  exactly when the chosen channel has room, and then appends the run there with one token;
  otherwise it returns false and leaves every queue as it was. \<open>enqueueBlocking\<close> does the
  same on the channel of the run's priority and waits when that channel is full. \<open>GetRun\<close>
  never reaches its \<open>panic("unreachable")\<close>: once it has taken a token it returns the oldest
  run of the highest-priority non-empty channel and removes it. When the channel operations
  of concurrent calls interleave, no reachable state lets a \<open>GetRun\<close> that holds a token
  find the low channel empty after the other two, the token of a sent run always finds
  room in \<open>ready\<close>, and whenever no call is under way the tokens again equal the runs.
\<close>

theorem queue_readiness_invariant:
  assumes "queue_inv n (queues s qid)"
  shows "queue_inv n (new_Queue name n) \<and>
    (chan_len (runs (queues s qid) p) < n \<longrightarrow>
       (\<exists>s'. enqueue (Some r) p qid s = Returns (True, s') \<and>
          queue_inv n (queues s' qid) \<and>
          buf (runs (queues s' qid) p) = buf (runs (queues s qid) p) @ [r] \<and>
          (\<forall>p'. p' \<noteq> p \<longrightarrow> runs (queues s' qid) p' = runs (queues s qid) p') \<and>
          chan_len (ready (queues s' qid)) = Suc (chan_len (ready (queues s qid))))) \<and>
    (\<not> chan_len (runs (queues s qid) p) < n \<longrightarrow>
       (\<exists>s'. enqueue (Some r) p qid s = Returns (False, s') \<and> queues s' = queues s)) \<and>
    (chan_len (runs (queues s qid) (rc_Priority (heap s r))) < n \<longrightarrow>
       (\<exists>s'. enqueueBlocking (Some r) qid s = Returns s' \<and>
          queue_inv n (queues s' qid) \<and>
          buf (runs (queues s' qid) (rc_Priority (heap s r))) =
            buf (runs (queues s qid) (rc_Priority (heap s r))) @ [r] \<and>
          (\<forall>p'. p' \<noteq> rc_Priority (heap s r) \<longrightarrow>
                 runs (queues s' qid) p' = runs (queues s qid) p') \<and>
          chan_len (ready (queues s' qid)) = Suc (chan_len (ready (queues s qid))))) \<and>
    (\<not> chan_len (runs (queues s qid) (rc_Priority (heap s r))) < n \<longrightarrow>
       enqueueBlocking (Some r) qid s = Blocks) \<and>
    GetRun runner closeNotifier pickClose qid s \<noteq> Panics Unreachable \<and>
    (buf (ready (queues s qid)) \<noteq> [] \<and> \<not> (closeNotifier \<and> pickClose) \<longrightarrow>
       (\<exists>s' inflight.
          GetRun runner closeNotifier pickClose qid s =
            Returns ((Some (hd (buf (runs (queues s qid) (highest_nonempty (queues s qid))))),
                      Some inflight, True), s') \<and>
          buf (runs (queues s qid) (highest_nonempty (queues s qid))) \<noteq> [] \<and>
          queue_inv n (queues s' qid) \<and>
          buf (runs (queues s' qid) (highest_nonempty (queues s qid))) =
            tl (buf (runs (queues s qid) (highest_nonempty (queues s qid)))) \<and>
          (\<forall>p'. p' \<noteq> highest_nonempty (queues s qid) \<longrightarrow>
                 runs (queues s' qid) p' = runs (queues s qid) p') \<and>
          Suc (chan_len (ready (queues s' qid))) = chan_len (ready (queues s qid)))) \<and>
    (\<forall>c. il_reachable n c \<longrightarrow>
       \<not> (il_scanning c QueuePriorityLow > 0 \<and> il_runs c QueuePriorityLow = []) \<and>
       (il_sending c > 0 \<longrightarrow> il_ready c < 3 * n) \<and>
       (il_sending c = 0 \<and> (\<forall>p. il_scanning c p = 0) \<longrightarrow>
          il_ready c = length (il_runs c QueuePriorityHigh) +
            length (il_runs c QueuePriorityNormal) + length (il_runs c QueuePriorityLow)))"
proof (intro conjI impI)
  show "\<forall>c. il_reachable n c \<longrightarrow>
       \<not> (il_scanning c QueuePriorityLow > 0 \<and> il_runs c QueuePriorityLow = []) \<and>
       (il_sending c > 0 \<longrightarrow> il_ready c < 3 * n) \<and>
       (il_sending c = 0 \<and> (\<forall>p. il_scanning c p = 0) \<longrightarrow>
          il_ready c = length (il_runs c QueuePriorityHigh) +
            length (il_runs c QueuePriorityNormal) + length (il_runs c QueuePriorityLow))"
    using il_no_panic il_token_room il_quiescent by blast
  show "queue_inv n (new_Queue name n)" by (rule new_Queue_inv)
  show "GetRun runner closeNotifier pickClose qid s \<noteq> Panics Unreachable"
    using assms by (rule GetRun_never_unreachable)
next
  assume "chan_len (runs (queues s qid) p) < n"
  with assms show "\<exists>s'. enqueue (Some r) p qid s = Returns (True, s') \<and>
          queue_inv n (queues s' qid) \<and>
          buf (runs (queues s' qid) p) = buf (runs (queues s qid) p) @ [r] \<and>
          (\<forall>p'. p' \<noteq> p \<longrightarrow> runs (queues s' qid) p' = runs (queues s qid) p') \<and>
          chan_len (ready (queues s' qid)) = Suc (chan_len (ready (queues s qid)))"
    by (rule enqueue_space)
next
  assume "\<not> chan_len (runs (queues s qid) p) < n"
  with assms show "\<exists>s'. enqueue (Some r) p qid s = Returns (False, s') \<and> queues s' = queues s"
    by (rule enqueue_full)
next
  assume "chan_len (runs (queues s qid) (rc_Priority (heap s r))) < n"
  with assms show "\<exists>s'. enqueueBlocking (Some r) qid s = Returns s' \<and>
          queue_inv n (queues s' qid) \<and>
          buf (runs (queues s' qid) (rc_Priority (heap s r))) =
            buf (runs (queues s qid) (rc_Priority (heap s r))) @ [r] \<and>
          (\<forall>p'. p' \<noteq> rc_Priority (heap s r) \<longrightarrow>
                 runs (queues s' qid) p' = runs (queues s qid) p') \<and>
          chan_len (ready (queues s' qid)) = Suc (chan_len (ready (queues s qid)))"
    by (rule enqueueBlocking_space)
next
  assume "\<not> chan_len (runs (queues s qid) (rc_Priority (heap s r))) < n"
  with assms show "enqueueBlocking (Some r) qid s = Blocks"
    by (rule enqueueBlocking_full)
next
  assume a: "buf (ready (queues s qid)) \<noteq> [] \<and> \<not> (closeNotifier \<and> pickClose)"
  then have t: "buf (ready (queues s qid)) \<noteq> []" and c: "\<not> (closeNotifier \<and> pickClose)"
    by simp_all
  show "\<exists>s' inflight.
          GetRun runner closeNotifier pickClose qid s =
            Returns ((Some (hd (buf (runs (queues s qid) (highest_nonempty (queues s qid))))),
                      Some inflight, True), s') \<and>
          buf (runs (queues s qid) (highest_nonempty (queues s qid))) \<noteq> [] \<and>
          queue_inv n (queues s' qid) \<and>
          buf (runs (queues s' qid) (highest_nonempty (queues s qid))) =
            tl (buf (runs (queues s qid) (highest_nonempty (queues s qid)))) \<and>
          (\<forall>p'. p' \<noteq> highest_nonempty (queues s qid) \<longrightarrow>
                 runs (queues s' qid) p' = runs (queues s qid) p') \<and>
          Suc (chan_len (ready (queues s' qid))) = chan_len (ready (queues s qid))"
    using assms t c by (rule GetRun_token)
qed

theorem queue_readiness_invariant_witness:
  "queue_inv 1 (queues (initial_grader 1) 0) \<and>
   queue_inv 1 (queues ((initial_grader 1)\<lparr>queues := (\<lambda>qid.
       \<lparr>q_Name = ''default'',
        runs = (\<lambda>p. make_chan 1)(QueuePriorityHigh := \<lparr>buf = [7], cap = 1\<rparr>),
        ready = \<lparr>buf = [()], cap = 3\<rparr>\<rparr>)\<rparr>) 0) \<and>
   (\<exists>s'. enqueue (Some 7) QueuePriorityHigh 0 (initial_grader 1) = Returns (True, s') \<and>
         buf (runs (queues s' 0) QueuePriorityHigh) = [7] \<and> chan_len (ready (queues s' 0)) = 1) \<and>
   (\<exists>s'. enqueue (Some 8) QueuePriorityHigh 0 ((initial_grader 1)\<lparr>queues := (\<lambda>qid.
       \<lparr>q_Name = ''default'',
        runs = (\<lambda>p. make_chan 1)(QueuePriorityHigh := \<lparr>buf = [7], cap = 1\<rparr>),
        ready = \<lparr>buf = [()], cap = 3\<rparr>\<rparr>)\<rparr>) = Returns (False, s')) \<and>
   enqueueBlocking (Some 8) 0 ((initial_grader 1)\<lparr>queues := (\<lambda>qid.
       \<lparr>q_Name = ''default'',
        runs = (\<lambda>p. make_chan 1)(QueuePriorityHigh := \<lparr>buf = [7], cap = 1\<rparr>),
        ready = \<lparr>buf = [()], cap = 3\<rparr>\<rparr>)\<rparr>) = Blocks \<and>
   (\<exists>s' inflight. GetRun ''runner'' False False 0 ((initial_grader 1)\<lparr>queues := (\<lambda>qid.
       \<lparr>q_Name = ''default'',
        runs = (\<lambda>p. make_chan 1)(QueuePriorityHigh := \<lparr>buf = [7], cap = 1\<rparr>),
        ready = \<lparr>buf = [()], cap = 3\<rparr>\<rparr>)\<rparr>) = Returns ((Some 7, Some inflight, True), s') \<and>
      chan_len (ready (queues s' 0)) = 0) \<and>
   il_reachable 1 (il_start\<lparr>il_runs := (il_runs il_start)
       (QueuePriorityHigh := il_runs il_start QueuePriorityHigh @ [7]),
       il_sending := Suc (il_sending il_start)\<rparr>) \<and>
   il_ready (il_start\<lparr>il_runs := (il_runs il_start)
       (QueuePriorityHigh := il_runs il_start QueuePriorityHigh @ [7]),
       il_sending := Suc (il_sending il_start)\<rparr>) < 3 * 1"
proof -
  let ?s = "initial_grader 1"
  let ?t = "(initial_grader 1)\<lparr>queues := (\<lambda>qid.
       \<lparr>q_Name = ''default'',
        runs = (\<lambda>p. make_chan 1)(QueuePriorityHigh := \<lparr>buf = [7], cap = 1\<rparr>),
        ready = \<lparr>buf = [()], cap = 3\<rparr>\<rparr>)\<rparr>"
  have i1: "queue_inv 1 (queues ?s 0)"
    by (simp add: initial_grader_def new_Queue_inv)
  have i2: "queue_inv 1 (queues ?t 0)"
    by (simp add: queue_inv_def chan_len_def make_chan_def)
  have p1: "chan_len (runs (queues ?s 0) QueuePriorityHigh) < 1"
    by (simp add: initial_grader_def new_Queue_def make_chan_def chan_len_def)
  have p2: "\<not> chan_len (runs (queues ?t 0) QueuePriorityHigh) < 1"
    by (simp add: chan_len_def)
  have p3: "rc_Priority (heap ?t 8) = QueuePriorityHigh"
    by (simp add: initial_grader_def)
  have p4: "buf (ready (queues ?t 0)) \<noteq> [] \<and> \<not> (False \<and> False)" by simp
  have h: "highest_nonempty (queues ?t 0) = QueuePriorityHigh"
    by (simp add: highest_nonempty_def)
  have b: "buf (runs (queues ?s 0) QueuePriorityHigh) = []" "chan_len (ready (queues ?s 0)) = 0"
    by (simp_all add: initial_grader_def new_Queue_def make_chan_def chan_len_def)
  note A = queue_readiness_invariant [where p = QueuePriorityHigh and r = 7, OF i1]
  note B = queue_readiness_invariant [where p = QueuePriorityHigh and r = 8 and runner = "''runner''"
      and closeNotifier = False and pickClose = False, OF i2]
  have c1: "\<exists>s'. enqueue (Some 7) QueuePriorityHigh 0 ?s = Returns (True, s') \<and>
         buf (runs (queues s' 0) QueuePriorityHigh) = [7] \<and> chan_len (ready (queues s' 0)) = 1"
  proof -
    from A p1 obtain s' where
      e: "enqueue (Some 7) QueuePriorityHigh 0 ?s = Returns (True, s')"
      and f: "buf (runs (queues s' 0) QueuePriorityHigh) = buf (runs (queues ?s 0) QueuePriorityHigh) @ [7]"
      and g: "chan_len (ready (queues s' 0)) = Suc (chan_len (ready (queues ?s 0)))"
      by blast
    have "buf (runs (queues s' 0) QueuePriorityHigh) = [7]" using f b(1) by simp
    moreover have "chan_len (ready (queues s' 0)) = 1" using g b(2) by simp
    ultimately show ?thesis using e by blast
  qed
  have c2: "\<exists>s'. enqueue (Some 8) QueuePriorityHigh 0 ?t = Returns (False, s')"
    using B p2 by blast
  have c3: "enqueueBlocking (Some 8) 0 ?t = Blocks"
  proof -
    have "\<not> chan_len (runs (queues ?t 0) (rc_Priority (heap ?t 8))) < 1"
      unfolding p3 by (rule p2)
    with B show ?thesis by blast
  qed
  have c4: "\<exists>s' inflight. GetRun ''runner'' False False 0 ?t = Returns ((Some 7, Some inflight, True), s') \<and>
      chan_len (ready (queues s' 0)) = 0"
  proof -
    from B p4 obtain s' inflight where
      g0: "GetRun ''runner'' False False 0 ?t =
            Returns ((Some (hd (buf (runs (queues ?t 0) (highest_nonempty (queues ?t 0))))),
                      Some inflight, True), s')"
      and l: "Suc (chan_len (ready (queues s' 0))) = chan_len (ready (queues ?t 0))"
      by blast
    have g: "GetRun ''runner'' False False 0 ?t =
            Returns ((Some (hd (buf (runs (queues ?t 0) QueuePriorityHigh))), Some inflight, True), s')"
      using g0 by (simp only: h)
    have "hd (buf (runs (queues ?t 0) QueuePriorityHigh)) = 7" by simp
    moreover have "chan_len (ready (queues s' 0)) = 0" using l by (simp add: chan_len_def)
    ultimately show ?thesis using g by auto
  qed
  let ?c = "il_start\<lparr>il_runs := (il_runs il_start)
       (QueuePriorityHigh := il_runs il_start QueuePriorityHigh @ [7]),
       il_sending := Suc (il_sending il_start)\<rparr>"
  have c5: "il_reachable 1 ?c"
    by (rule il_reachable.step [OF il_reachable.start il_step.send_run]) (simp add: il_start_def)
  have "il_sending ?c > 0" by simp
  with A c5 have c6: "il_ready ?c < 3 * 1" by blast
  show ?thesis using i1 i2 c1 c2 c3 c4 c5 c6 by blast
qed

section \<open>Properties of Requeue\<close>

lemma monitor_Remove_frame [simp]:
  "queues (monitor_Remove a s) = queues s"
  "persisted (monitor_Remove a s) = persisted s"
  "released (monitor_Remove a s) = released s"
  "finishedRuns (monitor_Remove a s) = finishedRuns s"
  "last_attempt (monitor_Remove a s) = last_attempt s"
  "next_addr (monitor_Remove a s) = next_addr s"
  by (simp_all add: monitor_Remove_def Let_def split: option.splits)

lemma monitor_Remove_heap [simp]:
  "rc_tries (heap (monitor_Remove a s) x) = rc_tries (heap s x)"
  "rc_closed (heap (monitor_Remove a s) x) = rc_closed (heap s x)"
  "rc_queue (heap (monitor_Remove a s) x) = rc_queue (heap s x)"
  "rc_Verdict (heap (monitor_Remove a s) x) = rc_Verdict (heap s x)"
  "rc_ready (heap (monitor_Remove a s) x) = rc_ready (heap s x)"
  "rc_input (heap (monitor_Remove a s) x) = rc_input (heap s x)"
  "rc_Priority (heap (monitor_Remove a s) x) = rc_Priority (heap s x)"
  "rc_AttemptID (heap (monitor_Remove a s) x) = rc_AttemptID (heap s x)"
  by (simp_all add: monitor_Remove_def Let_def split: option.splits)

lemma Close_open:
  assumes "rc_closed (heap s r) = 0" and "\<not> rc_ready (heap s r)"
  shows "\<exists>s'. Close io r s = Returns s' \<and> rc_closed (heap s' r) = 1 \<and>
           rc_tries (heap s' r) = rc_tries (heap s r) \<and> queues s' = queues s \<and>
           persisted s' = persisted s @ close_artifacts io r (rc_Verdict (heap s r))"
  using assms
  by (auto simp: Close_def Let_def close_artifacts_def split: option.splits)

lemma Close_closed:
  assumes "rc_closed (heap s r) \<noteq> 0"
  shows "Close io r s = Returns s"
  using assms by (simp add: Close_def)


lemma Requeue_again:
  assumes q: "rc_queue (heap s r) = Some qid"
    and inv: "queue_inv n (queues s qid)"
    and sp: "chan_len (runs (queues s qid) QueuePriorityHigh) < n"
    and tr: "1 < rc_tries (heap s r)"
  shows "\<exists>s'. Requeue io False r s = Returns (True, s') \<and>
           rc_tries (heap s' r) = rc_tries (heap s r) - 1 \<and>
           rc_closed (heap s' r) = rc_closed (heap s r) \<and>
           rc_ready (heap s' r) = rc_ready (heap s r) \<and>
           rc_Verdict (heap s' r) = rc_Verdict (heap s r) \<and>
           rc_queue (heap s' r) = Some qid \<and>
           rc_AttemptID (heap s' r) = last_attempt s + 1 \<and>
           queue_inv n (queues s' qid) \<and>
           buf (runs (queues s' qid) QueuePriorityHigh) =
             buf (runs (queues s qid) QueuePriorityHigh) @ [r] \<and>
           persisted s' = persisted s"
proof -
  define s1 where "s1 = (if rc_monitor (heap s r) then monitor_Remove (rc_AttemptID (heap s r)) s else s)"
  define s2 where "s2 = s1\<lparr>heap := (heap s1)(r := (heap s1 r)\<lparr>rc_tries := rc_tries (heap s1 r) - 1\<rparr>)\<rparr>"
  define s4 where "s4 = UpdateAttemptID r s2"
  have f1: "queues s1 = queues s" "persisted s1 = persisted s" "last_attempt s1 = last_attempt s"
    "rc_tries (heap s1 r) = rc_tries (heap s r)" "rc_closed (heap s1 r) = rc_closed (heap s r)"
    "rc_ready (heap s1 r) = rc_ready (heap s r)" "rc_Verdict (heap s1 r) = rc_Verdict (heap s r)"
    "rc_queue (heap s1 r) = rc_queue (heap s r)"
    by (simp_all add: s1_def)
  have f4: "queues s4 = queues s" "persisted s4 = persisted s"
    "rc_tries (heap s4 r) = rc_tries (heap s r) - 1" "rc_closed (heap s4 r) = rc_closed (heap s r)"
    "rc_ready (heap s4 r) = rc_ready (heap s r)" "rc_Verdict (heap s4 r) = rc_Verdict (heap s r)"
    "rc_queue (heap s4 r) = Some qid" "rc_AttemptID (heap s4 r) = last_attempt s + 1"
    using f1 q by (simp_all add: s4_def s2_def UpdateAttemptID_def NewAttemptID_def)
  have inv4: "queue_inv n (queues s4 qid)" and sp4: "chan_len (runs (queues s4 qid) QueuePriorityHigh) < n"
    using inv sp by (simp_all add: f4)
  have c: "cap (runs (queues s4 qid) QueuePriorityHigh) = n" using inv_cap [OF inv4] by simp
  have "chan_len (ready (queues s4 qid)) < 3 * n"
    using inv4 sp4 by (auto simp: queue_inv_def)
  then have rr: "length (buf (ready (queues s4 qid))) < cap (ready (queues s4 qid))"
    using inv4 by (simp add: queue_inv_def chan_len_def)
  obtain s' where e: "enqueue (Some r) QueuePriorityHigh qid s4 = Returns (True, s')"
    and e1: "queue_inv n (queues s' qid)"
    and e2: "buf (runs (queues s' qid) QueuePriorityHigh) = buf (runs (queues s4 qid) QueuePriorityHigh) @ [r]"
    using enqueue_space [OF inv4 sp4] by blast
  have e3: "heap s' = (heap s4)(r := (heap s4 r)\<lparr>rc_queue := Some qid\<rparr>)" "persisted s' = persisted s4"
    using e c rr sp4 by (auto simp: enqueue_def Let_def try_send_def chan_len_def)
  have R0: "Requeue io False r s =
      (if rc_tries (heap s2 r) \<le> 0
       then bind_outcome (Close io r s2) (\<lambda>s3. Returns (False, s3))
       else (case rc_queue (heap s4 r) of
               None \<Rightarrow> Panics NilDereference
             | Some qid \<Rightarrow>
                 bind_outcome (enqueue (Some r) QueuePriorityHigh qid s4)
                   (\<lambda>(ok, s5).
                      if \<not> ok
                      then bind_outcome (Close io r s5) (\<lambda>s6. Returns (False, s6))
                      else Returns (True, s5))))"
    unfolding Requeue_def Let_def s4_def s2_def s1_def by simp
  have t2: "rc_tries (heap s2 r) = rc_tries (heap s r) - 1" using f1 by (simp add: s2_def)
  have R: "Requeue io False r s = Returns (True, s')"
    using tr t2 f4 e by (simp add: R0)
  show ?thesis
    using R e1 e2 e3 f4 by simp
qed

lemma Requeue_exhausted:
  assumes tr: "rc_tries (heap s r) \<le> 1" and cl: "rc_closed (heap s r) = 0"
    and rd: "\<not> rc_ready (heap s r)"
  shows "\<exists>s'. Requeue io False r s = Returns (False, s') \<and>
           rc_tries (heap s' r) = rc_tries (heap s r) - 1 \<and>
           rc_closed (heap s' r) = 1 \<and>
           queues s' = queues s \<and>
           persisted s' = persisted s @ close_artifacts io r (rc_Verdict (heap s r))"
proof -
  define s1 where "s1 = (if rc_monitor (heap s r) then monitor_Remove (rc_AttemptID (heap s r)) s else s)"
  define s2 where "s2 = s1\<lparr>heap := (heap s1)(r := (heap s1 r)\<lparr>rc_tries := rc_tries (heap s1 r) - 1\<rparr>)\<rparr>"
  have f2: "queues s2 = queues s" "persisted s2 = persisted s"
    "rc_tries (heap s2 r) = rc_tries (heap s r) - 1" "rc_closed (heap s2 r) = 0"
    "\<not> rc_ready (heap s2 r)" "rc_Verdict (heap s2 r) = rc_Verdict (heap s r)"
    using cl rd by (simp_all add: s1_def s2_def)
  have t1: "rc_tries (heap s1 r) = rc_tries (heap s r)" by (simp add: s1_def)
  obtain s' where c: "Close io r s2 = Returns s'" and c1: "rc_closed (heap s' r) = 1"
    and c2: "rc_tries (heap s' r) = rc_tries (heap s2 r)" and c3: "queues s' = queues s2"
    and c4: "persisted s' = persisted s2 @ close_artifacts io r (rc_Verdict (heap s2 r))"
    using Close_open [OF f2(4) f2(5)] by blast
  have R0: "Requeue io False r s =
      (if rc_tries (heap s2 r) \<le> 0
       then bind_outcome (Close io r s2) (\<lambda>s3. Returns (False, s3))
       else (case rc_queue (heap (UpdateAttemptID r s2) r) of
               None \<Rightarrow> Panics NilDereference
             | Some qid \<Rightarrow>
                 bind_outcome (enqueue (Some r) QueuePriorityHigh qid (UpdateAttemptID r s2))
                   (\<lambda>(ok, s5).
                      if \<not> ok
                      then bind_outcome (Close io r s5) (\<lambda>s6. Returns (False, s6))
                      else Returns (True, s5))))"
    unfolding Requeue_def Let_def s2_def s1_def by simp
  have R: "Requeue io False r s = Returns (False, s')"
    using tr f2 c by (simp add: R0)
  show ?thesis using R c1 c2 c3 c4 f2 by simp
qed

lemma Requeue_after_close:
  assumes tr: "rc_tries (heap s r) \<le> 1" and cl: "rc_closed (heap s r) = 1"
  shows "\<exists>s'. Requeue io False r s = Returns (False, s') \<and>
           rc_tries (heap s' r) = rc_tries (heap s r) - 1 \<and>
           rc_closed (heap s' r) = 1 \<and>
           queues s' = queues s \<and>
           persisted s' = persisted s"
proof -
  define s1 where "s1 = (if rc_monitor (heap s r) then monitor_Remove (rc_AttemptID (heap s r)) s else s)"
  define s2 where "s2 = s1\<lparr>heap := (heap s1)(r := (heap s1 r)\<lparr>rc_tries := rc_tries (heap s1 r) - 1\<rparr>)\<rparr>"
  have f2: "queues s2 = queues s" "persisted s2 = persisted s"
    "rc_tries (heap s2 r) = rc_tries (heap s r) - 1" "rc_closed (heap s2 r) = 1"
    using cl by (simp_all add: s1_def s2_def)
  have t1: "rc_tries (heap s1 r) = rc_tries (heap s r)" by (simp add: s1_def)
  have c: "Close io r s2 = Returns s2" using f2(4) by (simp add: Close_closed)
  have R0: "Requeue io False r s =
      (if rc_tries (heap s2 r) \<le> 0
       then bind_outcome (Close io r s2) (\<lambda>s3. Returns (False, s3))
       else (case rc_queue (heap (UpdateAttemptID r s2) r) of
               None \<Rightarrow> Panics NilDereference
             | Some qid \<Rightarrow>
                 bind_outcome (enqueue (Some r) QueuePriorityHigh qid (UpdateAttemptID r s2))
                   (\<lambda>(ok, s5).
                      if \<not> ok
                      then bind_outcome (Close io r s5) (\<lambda>s6. Returns (False, s6))
                      else Returns (True, s5))))"
    unfolding Requeue_def Let_def s2_def s1_def by simp
  have R: "Requeue io False r s = Returns (False, s2)"
    using tr f2 c by (simp add: R0)
  show ?thesis using R f2 by simp
qed


lemma bind_outcome_case:
  "bind_outcome m f = (case m of Panics p \<Rightarrow> Panics p | Blocks \<Rightarrow> Blocks | Returns x \<Rightarrow> f x)"
  by (cases m) simp_all

lemma Requeue_times_add:
  "Requeue_times (a + b) io r s =
     bind_outcome (Requeue_times a io r s)
       (\<lambda>(oks, s1). bind_outcome (Requeue_times b io r s1) (\<lambda>(oks2, s2). Returns (oks @ oks2, s2)))"
proof (induction a arbitrary: s)
  case 0
  show ?case by (cases "Requeue_times b io r s") auto
next
  case (Suc a)
  show ?case
  proof (cases "Requeue io False r s")
    case (Returns x)
    obtain ok s1 where x: "x = (ok, s1)" by (cases x)
    show ?thesis
      using Returns x Suc.IH [of s1]
      by (auto simp: bind_outcome_case split: outcome.splits prod.splits)
  qed simp_all
qed

lemma Requeue_times_again:
  assumes "rc_queue (heap s r) = Some qid"
    and "queue_inv n (queues s qid)"
    and "rc_tries (heap s r) = 1 + int m"
    and "k \<le> m"
    and "chan_len (runs (queues s qid) QueuePriorityHigh) + k \<le> n"
  shows "\<exists>s'. Requeue_times k io r s = Returns (replicate k True, s') \<and>
           rc_tries (heap s' r) = 1 + int (m - k) \<and>
           rc_closed (heap s' r) = rc_closed (heap s r) \<and>
           rc_ready (heap s' r) = rc_ready (heap s r) \<and>
           rc_Verdict (heap s' r) = rc_Verdict (heap s r) \<and>
           rc_queue (heap s' r) = Some qid \<and>
           queue_inv n (queues s' qid) \<and>
           buf (runs (queues s' qid) QueuePriorityHigh) =
             buf (runs (queues s qid) QueuePriorityHigh) @ replicate k r \<and>
           persisted s' = persisted s"
  using assms
proof (induction k arbitrary: s m)
  case 0
  then show ?case by simp
next
  case (Suc k)
  then obtain m' where m: "m = Suc m'" by (cases m) auto
  have sp: "chan_len (runs (queues s qid) QueuePriorityHigh) < n" using Suc.prems(5) by simp
  have tr: "1 < rc_tries (heap s r)" using Suc.prems(3) m by simp
  obtain s1 where r1: "Requeue io False r s = Returns (True, s1)"
    and t1: "rc_tries (heap s1 r) = rc_tries (heap s r) - 1"
    and c1: "rc_closed (heap s1 r) = rc_closed (heap s r)"
    and d1: "rc_ready (heap s1 r) = rc_ready (heap s r)"
    and v1: "rc_Verdict (heap s1 r) = rc_Verdict (heap s r)"
    and q1: "rc_queue (heap s1 r) = Some qid"
    and i1: "queue_inv n (queues s1 qid)"
    and b1: "buf (runs (queues s1 qid) QueuePriorityHigh) =
             buf (runs (queues s qid) QueuePriorityHigh) @ [r]"
    and p1: "persisted s1 = persisted s"
    using Requeue_again [OF Suc.prems(1) Suc.prems(2) sp tr, of io] by blast
  have t1': "rc_tries (heap s1 r) = 1 + int m'" using t1 Suc.prems(3) m by simp
  have k: "k \<le> m'" using Suc.prems(4) m by simp
  have sp1: "chan_len (runs (queues s1 qid) QueuePriorityHigh) + k \<le> n"
    using Suc.prems(5) b1 by (simp add: chan_len_def)
  obtain s' where r2: "Requeue_times k io r s1 = Returns (replicate k True, s')"
    and rest: "rc_tries (heap s' r) = 1 + int (m' - k)"
      "rc_closed (heap s' r) = rc_closed (heap s1 r)"
      "rc_ready (heap s' r) = rc_ready (heap s1 r)"
      "rc_Verdict (heap s' r) = rc_Verdict (heap s1 r)"
      "rc_queue (heap s' r) = Some qid"
      "queue_inv n (queues s' qid)"
      "buf (runs (queues s' qid) QueuePriorityHigh) =
         buf (runs (queues s1 qid) QueuePriorityHigh) @ replicate k r"
      "persisted s' = persisted s1"
    using Suc.IH [OF q1 i1 t1' k sp1] by blast
  have "Requeue_times (Suc k) io r s = Returns (replicate (Suc k) True, s')"
    using r1 r2 by simp
  moreover have "buf (runs (queues s' qid) QueuePriorityHigh) =
             buf (runs (queues s qid) QueuePriorityHigh) @ replicate (Suc k) r"
    using rest(7) b1 by (simp add: replicate_append_same)
  ultimately show ?case
    using rest c1 d1 v1 p1 m by auto
qed

lemma Requeue_times_after_close:
  assumes "rc_tries (heap s r) \<le> 1" and "rc_closed (heap s r) = 1"
  shows "\<exists>s'. Requeue_times j io r s = Returns (replicate j False, s') \<and>
           rc_tries (heap s' r) = rc_tries (heap s r) - int j \<and>
           rc_closed (heap s' r) = 1 \<and>
           queues s' = queues s \<and>
           persisted s' = persisted s"
  using assms
proof (induction j arbitrary: s)
  case 0
  then show ?case by simp
next
  case (Suc j)
  obtain s1 where r1: "Requeue io False r s = Returns (False, s1)"
    and t1: "rc_tries (heap s1 r) = rc_tries (heap s r) - 1"
    and c1: "rc_closed (heap s1 r) = 1"
    and q1: "queues s1 = queues s"
    and p1: "persisted s1 = persisted s"
    using Requeue_after_close [OF Suc.prems, of io] by blast
  have t1': "rc_tries (heap s1 r) \<le> 1" using t1 Suc.prems(1) by simp
  obtain s' where r2: "Requeue_times j io r s1 = Returns (replicate j False, s')"
    and rest: "rc_tries (heap s' r) = rc_tries (heap s1 r) - int j"
      "rc_closed (heap s' r) = 1" "queues s' = queues s1" "persisted s' = persisted s1"
    using Suc.IH [OF t1' c1] by blast
  have "Requeue_times (Suc j) io r s = Returns (replicate (Suc j) False, s')"
    using r1 r2 by simp
  then show ?case using rest t1 q1 p1 by auto
qed

lemma Requeue_times_exhausted:
  assumes "rc_tries (heap s r) \<le> 1" and "rc_closed (heap s r) = 0" and "\<not> rc_ready (heap s r)"
  shows "\<exists>s'. Requeue_times (Suc j) io r s = Returns (replicate (Suc j) False, s') \<and>
           rc_tries (heap s' r) = rc_tries (heap s r) - 1 - int j \<and>
           rc_closed (heap s' r) = 1 \<and>
           queues s' = queues s \<and>
           persisted s' = persisted s @ close_artifacts io r (rc_Verdict (heap s r))"
proof -
  obtain s1 where r1: "Requeue io False r s = Returns (False, s1)"
    and t1: "rc_tries (heap s1 r) = rc_tries (heap s r) - 1"
    and c1: "rc_closed (heap s1 r) = 1"
    and q1: "queues s1 = queues s"
    and p1: "persisted s1 = persisted s @ close_artifacts io r (rc_Verdict (heap s r))"
    using Requeue_exhausted [OF assms, of io] by blast
  have t1': "rc_tries (heap s1 r) \<le> 1" using t1 assms(1) by simp
  obtain s' where r2: "Requeue_times j io r s1 = Returns (replicate j False, s')"
    and rest: "rc_tries (heap s' r) = rc_tries (heap s1 r) - int j"
      "rc_closed (heap s' r) = 1" "queues s' = queues s1" "persisted s' = persisted s1"
    using Requeue_times_after_close [OF t1' c1, of j io] by blast
  have "Requeue_times (Suc j) io r s = Returns (replicate (Suc j) False, s')"
    using r1 r2 by simp
  then show ?thesis using rest t1 q1 p1 by auto
qed

text \<open>
  C2 (counterexample). A context created with \<open>MaxGradeRetries = 2\<close> and queued: the first
  \<open>Requeue(false)\<close> returns true, the second one already finds \<open>tries = 0\<close>, closes the context
  and returns false, although \<open>2 \<le> MaxGradeRetries\<close>.
\<close>

theorem requeue_closes_one_call_early:
  "observe_requeues 0 0 (queue_then_requeue 2 4 2 all_ok) =
     Returns ([True, False], 1, 0, [0],
              [(0, DetailsJson ''JE''), (0, LogsGz), (0, TracingGz)])"
  by (simp add: queue_then_requeue_def queued_run_def NewEmptyRunContext_def NewAttemptID_def
      initial_grader_def new_Queue_def make_chan_def AddRun_def enqueueBlocking_def try_send_def
      Let_def Requeue_def UpdateAttemptID_def enqueue_def Close_def all_ok_def
      numeral_2_eq_2)


text \<open>
  C2 (amended). For a queued, open run context with \<open>tries = N \<ge> 1\<close> whose high-priority
  channel has room for \<open>N - 1\<close> more runs, each of the first \<open>k \<le> N - 1\<close> calls of
  \<open>Requeue(false)\<close> returns true, leaves the context open with \<open>N - k\<close> tries and appends the
  run to the high-priority channel; the \<open>N\<close>-th call returns false and closes the context
  once, persisting the verdict it has at that time; every later call returns false and
  persists nothing more.
\<close>

theorem Requeue_budget:
  assumes q: "rc_queue (heap s r) = Some qid"
    and inv: "queue_inv n (queues s qid)"
    and cl: "rc_closed (heap s r) = 0"
    and rd: "\<not> rc_ready (heap s r)"
    and tr: "rc_tries (heap s r) = int N"
    and N: "1 \<le> N"
    and sp: "chan_len (runs (queues s qid) QueuePriorityHigh) + (N - 1) \<le> n"
  shows "(\<forall>k<N. observe_requeues r qid (Requeue_times k io r s) =
            Returns (replicate k True, 0, int (N - k),
                     buf (runs (queues s qid) QueuePriorityHigh) @ replicate k r, persisted s)) \<and>
         observe_requeues r qid (Requeue_times (N + j) io r s) =
            Returns (replicate (N - 1) True @ replicate (Suc j) False, 1, - int j,
                     buf (runs (queues s qid) QueuePriorityHigh) @ replicate (N - 1) r,
                     persisted s @ close_artifacts io r (rc_Verdict (heap s r)))"
proof (intro conjI allI impI)
  fix k assume k: "k < N"
  have tr': "rc_tries (heap s r) = 1 + int (N - 1)" using tr N by simp
  have k': "k \<le> N - 1" using k by simp
  have sp': "chan_len (runs (queues s qid) QueuePriorityHigh) + k \<le> n" using sp k by simp
  obtain s' where "Requeue_times k io r s = Returns (replicate k True, s')"
    "rc_tries (heap s' r) = 1 + int (N - 1 - k)" "rc_closed (heap s' r) = rc_closed (heap s r)"
    "buf (runs (queues s' qid) QueuePriorityHigh) =
       buf (runs (queues s qid) QueuePriorityHigh) @ replicate k r"
    "persisted s' = persisted s"
    using Requeue_times_again [OF q inv tr' k' sp', of io] by blast
  then show "observe_requeues r qid (Requeue_times k io r s) =
            Returns (replicate k True, 0, int (N - k),
                     buf (runs (queues s qid) QueuePriorityHigh) @ replicate k r, persisted s)"
    using cl k by (simp add: of_nat_diff)
next
  have tr': "rc_tries (heap s r) = 1 + int (N - 1)" using tr N by simp
  obtain s1 where a: "Requeue_times (N - 1) io r s = Returns (replicate (N - 1) True, s1)"
    and a1: "rc_tries (heap s1 r) = 1 + int (N - 1 - (N - 1))"
      "rc_closed (heap s1 r) = rc_closed (heap s r)"
      "rc_ready (heap s1 r) = rc_ready (heap s r)"
      "rc_Verdict (heap s1 r) = rc_Verdict (heap s r)"
      "buf (runs (queues s1 qid) QueuePriorityHigh) =
         buf (runs (queues s qid) QueuePriorityHigh) @ replicate (N - 1) r"
      "persisted s1 = persisted s"
    using Requeue_times_again [OF q inv tr' order_refl sp, of io] by blast
  have b1: "rc_tries (heap s1 r) \<le> 1" "rc_closed (heap s1 r) = 0" "\<not> rc_ready (heap s1 r)"
    using a1 cl rd by simp_all
  obtain s2 where b: "Requeue_times (Suc j) io r s1 = Returns (replicate (Suc j) False, s2)"
    and b2: "rc_tries (heap s2 r) = rc_tries (heap s1 r) - 1 - int j"
      "rc_closed (heap s2 r) = 1" "queues s2 = queues s1"
      "persisted s2 = persisted s1 @ close_artifacts io r (rc_Verdict (heap s1 r))"
    using Requeue_times_exhausted [OF b1, of j io] by blast
  have "N + j = (N - 1) + Suc j" using N by simp
  then have "Requeue_times (N + j) io r s =
      Returns (replicate (N - 1) True @ replicate (Suc j) False, s2)"
    using a b by (simp only: Requeue_times_add) simp
  then show "observe_requeues r qid (Requeue_times (N + j) io r s) =
            Returns (replicate (N - 1) True @ replicate (Suc j) False, 1, - int j,
                     buf (runs (queues s qid) QueuePriorityHigh) @ replicate (N - 1) r,
                     persisted s @ close_artifacts io r (rc_Verdict (heap s r)))"
    using a1 b2 by simp
qed

theorem Requeue_budget_witness:
  "rc_queue (heap ((initial_grader 2)\<lparr>heap := (\<lambda>a. (heap (initial_grader 2) a)
        \<lparr>rc_Verdict := ''JE'', rc_tries := 3, rc_queue := Some 0\<rparr>)\<rparr>) 5) = Some 0 \<and>
   observe_requeues 5 0 (Requeue_times 2 all_ok 5 ((initial_grader 2)\<lparr>heap := (\<lambda>a. (heap (initial_grader 2) a)
        \<lparr>rc_Verdict := ''JE'', rc_tries := 3, rc_queue := Some 0\<rparr>)\<rparr>)) =
     Returns ([True, True], 0, 1, [5, 5], []) \<and>
   observe_requeues 5 0 (Requeue_times 3 all_ok 5 ((initial_grader 2)\<lparr>heap := (\<lambda>a. (heap (initial_grader 2) a)
        \<lparr>rc_Verdict := ''JE'', rc_tries := 3, rc_queue := Some 0\<rparr>)\<rparr>)) =
     Returns ([True, True, False], 1, 0, [5, 5],
              [(5, DetailsJson ''JE''), (5, LogsGz), (5, TracingGz)])"
proof -
  let ?s = "(initial_grader 2)\<lparr>heap := (\<lambda>a. (heap (initial_grader 2) a)
        \<lparr>rc_Verdict := ''JE'', rc_tries := 3, rc_queue := Some 0\<rparr>)\<rparr>"
  have q: "rc_queue (heap ?s 5) = Some 0" by simp
  have inv: "queue_inv 2 (queues ?s 0)" by (simp add: initial_grader_def new_Queue_inv)
  have cl: "rc_closed (heap ?s 5) = 0" by (simp add: initial_grader_def)
  have rd: "\<not> rc_ready (heap ?s 5)" by (simp add: initial_grader_def)
  have tr: "rc_tries (heap ?s 5) = int 3" by simp
  have N: "1 \<le> (3::nat)" by simp
  have sp: "chan_len (runs (queues ?s 0) QueuePriorityHigh) + (3 - 1) \<le> 2"
    by (simp add: initial_grader_def new_Queue_def make_chan_def chan_len_def)
  note T = Requeue_budget [OF q inv cl rd tr N sp, where io = all_ok and j = 0]
  have b: "buf (runs (queues ?s 0) QueuePriorityHigh) = []" "persisted ?s = []"
    "rc_Verdict (heap ?s 5) = ''JE''"
    by (simp_all add: initial_grader_def new_Queue_def make_chan_def)
  have ca: "close_artifacts all_ok 5 ''JE'' = [(5, DetailsJson ''JE''), (5, LogsGz), (5, TracingGz)]"
    by (simp add: close_artifacts_def all_ok_def)
  have r2: "replicate 2 True = [True, True]" "replicate 2 (5::nat) = [5, 5]"
    "replicate (3 - 1) True = [True, True]" "replicate (3 - 1) (5::nat) = [5, 5]"
    by (simp_all add: numeral_2_eq_2)
  have k2: "observe_requeues 5 0 (Requeue_times 2 all_ok 5 ?s) =
              Returns (replicate 2 True, 0, int (3 - 2),
                       buf (runs (queues ?s 0) QueuePriorityHigh) @ replicate 2 5, persisted ?s)"
    using T by simp
  have k3: "observe_requeues 5 0 (Requeue_times (3 + 0) all_ok 5 ?s) =
              Returns (replicate (3 - 1) True @ replicate (Suc 0) False, 1, - int 0,
                       buf (runs (queues ?s 0) QueuePriorityHigh) @ replicate (3 - 1) 5,
                       persisted ?s @ close_artifacts all_ok 5 (rc_Verdict (heap ?s 5)))"
    using T by blast
  show ?thesis
    using q k2 k3 unfolding b ca r2 by simp
qed

section \<open>Properties of run injection\<close>

lemma v1CompatNewRunContext_effect:
  assumes "v1CompatNewRunContext env guid s = Returns (res, s1)"
  shows "next_addr s1 = Suc (next_addr s) \<and> queues s1 = queues s \<and>
         (\<forall>a. a \<noteq> next_addr s \<longrightarrow> heap s1 a = heap s a) \<and>
         rc_GUID (heap s1 (next_addr s)) = guid \<and>
         (\<forall>r settings. res = Inr (r, settings) \<longrightarrow>
            r = next_addr s \<and>
            (\<exists>name hash. db_run env guid = Inr name \<and>
               problem_information env name = Inr (hash, settings)))"
  using assms
  by (auto simp: v1CompatNewRunContext_def NewEmptyRunContext_def NewAttemptID_def Let_def
      split: if_splits sum.splits prod.splits)

lemma AddRun_effect:
  assumes "AddRun (Some r) qid s = Returns s3"
  shows "next_addr s3 = next_addr s \<and>
         (\<forall>a. a \<noteq> r \<longrightarrow> heap s3 a = heap s a) \<and>
         rc_GUID (heap s3 r) = rc_GUID (heap s r) \<and>
         rc_Priority (heap s3 r) = rc_Priority (heap s r) \<and>
         buf (runs (queues s3 qid) (rc_Priority (heap s r))) =
           buf (runs (queues s qid) (rc_Priority (heap s r))) @ [r] \<and>
         (\<forall>p. p \<noteq> rc_Priority (heap s r) \<longrightarrow> runs (queues s3 qid) p = runs (queues s qid) p)"
  using assms
  by (auto simp: AddRun_def enqueueBlocking_def Let_def try_send_def
      split: if_splits option.splits)

lemma injected_as_mono:
  "injected_as env guids priority s a p \<Longrightarrow> heap s' a = heap s a \<Longrightarrow>
   injected_as env (g # guids) priority s' a p"
  by (auto simp: injected_as_def)

lemma v1CompatInjectRuns_frame:
  assumes "v1CompatInjectRuns env qid guids priority s = Returns (err, s')"
  shows "next_addr s \<le> next_addr s' \<and>
         (\<forall>a < next_addr s. heap s' a = heap s a) \<and>
         (\<forall>p. \<exists>new. buf (runs (queues s' qid) p) = buf (runs (queues s qid) p) @ new \<and>
               (\<forall>a \<in> set new. next_addr s \<le> a \<and> injected_as env guids priority s' a p))"
  using assms
proof (induction guids arbitrary: s)
  case Nil
  then show ?case by simp
next
  case (Cons guid guids)
  obtain res s1 where n: "v1CompatNewRunContext env guid s = Returns (res, s1)"
    using Cons.prems by (cases "v1CompatNewRunContext env guid s") auto
  note e1 = v1CompatNewRunContext_effect [OF n]
  show ?case
  proof (cases res)
    case (Inl e)
    then have "s' = s1" using Cons.prems n by simp
    then show ?thesis using e1 by auto
  next
    case (Inr rs)
    obtain r settings where rs: "rs = (r, settings)" by (cases rs)
    have r: "r = next_addr s" using e1 Inr rs by blast
    obtain name hash where nm: "db_run env guid = Inr name"
      "problem_information env name = Inr (hash, settings)"
      using e1 Inr rs by blast
    define p0 where "p0 = (if Slow settings then QueuePriorityLow else priority)"
    define s2 where "s2 = s1\<lparr>heap := (heap s1)(r := (heap s1 r)\<lparr>rc_Priority := p0\<rparr>)\<rparr>"
    have s2: "(if Slow settings
                then s1\<lparr>heap := (heap s1)(r := (heap s1 r)\<lparr>rc_Priority := QueuePriorityLow\<rparr>)\<rparr>
                else s1\<lparr>heap := (heap s1)(r := (heap s1 r)\<lparr>rc_Priority := priority\<rparr>)\<rparr>) = s2"
      by (simp add: s2_def p0_def)
    have f2: "next_addr s2 = Suc (next_addr s)" "queues s2 = queues s"
      "\<forall>a. a \<noteq> r \<longrightarrow> heap s2 a = heap s a" "rc_GUID (heap s2 r) = guid"
      "rc_Priority (heap s2 r) = p0"
      using e1 r by (simp_all add: s2_def)
    show ?thesis
    proof (cases "input_add env (rc_InputHash (heap s2 r))")
      case (Inl e)
      then have "s' = s2" using Cons.prems n Inr rs s2 by (simp add: Let_def)
      then show ?thesis using f2 r by auto
    next
      case inp: (Inr input)
      define s2i where "s2i = AddRunContext r input s2"
      have f2i: "next_addr s2i = Suc (next_addr s)" "queues s2i = queues s"
        "\<forall>a. a \<noteq> r \<longrightarrow> heap s2i a = heap s a" "rc_GUID (heap s2i r) = guid"
        "rc_Priority (heap s2i r) = p0"
        using f2 by (simp_all add: s2i_def AddRunContext_def)
      have step: "bind_outcome (AddRun (Some r) qid s2i)
                    (\<lambda>s3. v1CompatInjectRuns env qid guids priority s3) = Returns (err, s')"
        using Cons.prems n Inr rs s2 inp by (simp add: Let_def s2i_def)
      then obtain s3 where a: "AddRun (Some r) qid s2i = Returns s3"
        and rest: "v1CompatInjectRuns env qid guids priority s3 = Returns (err, s')"
        by (cases "AddRun (Some r) qid s2i") auto
      note e3 = AddRun_effect [OF a]
      have f3: "next_addr s3 = Suc (next_addr s)"
        "\<forall>a. a \<noteq> r \<longrightarrow> heap s3 a = heap s a" "rc_GUID (heap s3 r) = guid"
        "rc_Priority (heap s3 r) = p0"
        "buf (runs (queues s3 qid) p0) = buf (runs (queues s qid) p0) @ [r]"
        "\<forall>p. p \<noteq> p0 \<longrightarrow> runs (queues s3 qid) p = runs (queues s qid) p"
        using e3 f2i by simp_all
      note ih = Cons.IH [OF rest]
      have hr: "heap s' r = heap s3 r" using ih f3(1) r by simp
      have gr: "injected_as env (guid # guids) priority s' r p0"
        using nm hr f3(3,4) by (auto simp: injected_as_def p0_def)
      have "next_addr s \<le> next_addr s'" using ih f3(1) by simp
      moreover have "\<forall>a < next_addr s. heap s' a = heap s a"
        using ih f3(1,2) r by simp
      moreover have "\<exists>new. buf (runs (queues s' qid) p) = buf (runs (queues s qid) p) @ new \<and>
               (\<forall>a \<in> set new. next_addr s \<le> a \<and> injected_as env (guid # guids) priority s' a p)" for p
      proof -
        obtain new where nw: "buf (runs (queues s' qid) p) = buf (runs (queues s3 qid) p) @ new"
          and ng: "\<forall>a \<in> set new. next_addr s3 \<le> a \<and> injected_as env guids priority s' a p"
          using ih by blast
        have ng': "\<forall>a \<in> set new. next_addr s \<le> a \<and> injected_as env (guid # guids) priority s' a p"
          using ng f3(1) by (auto simp: injected_as_def)
        show ?thesis
        proof (cases "p = p0")
          case True
          then have "buf (runs (queues s' qid) p) = buf (runs (queues s qid) p) @ (r # new)"
            using nw f3(5) by simp
          moreover have "\<forall>a \<in> set (r # new). next_addr s \<le> a \<and>
                            injected_as env (guid # guids) priority s' a p"
            using ng' gr r True by simp
          ultimately show ?thesis by blast
        next
          case False
          then have "buf (runs (queues s' qid) p) = buf (runs (queues s qid) p) @ new"
            using nw f3(6) by simp
          then show ?thesis using ng' by blast
        qed
      qed
      ultimately show ?thesis by blast
    qed
  qed
qed


lemma v1CompatInjectRuns_complete:
  assumes "v1CompatInjectRuns env qid guids priority s = Returns (None, s')"
  shows "\<forall>guid \<in> set guids. \<exists>a p. a \<in> set (buf (runs (queues s' qid) p)) \<and>
           next_addr s \<le> a \<and> rc_GUID (heap s' a) = guid"
  using assms
proof (induction guids arbitrary: s)
  case Nil
  then show ?case by simp
next
  case (Cons guid guids)
  obtain res s1 where n: "v1CompatNewRunContext env guid s = Returns (res, s1)"
    using Cons.prems by (cases "v1CompatNewRunContext env guid s") auto
  note e1 = v1CompatNewRunContext_effect [OF n]
  obtain r settings where res: "res = Inr (r, settings)"
    using Cons.prems n by (cases res) auto
  have r: "r = next_addr s" using e1 res by blast
  define p0 where "p0 = (if Slow settings then QueuePriorityLow else priority)"
  define s2 where "s2 = s1\<lparr>heap := (heap s1)(r := (heap s1 r)\<lparr>rc_Priority := p0\<rparr>)\<rparr>"
  have s2: "(if Slow settings
              then s1\<lparr>heap := (heap s1)(r := (heap s1 r)\<lparr>rc_Priority := QueuePriorityLow\<rparr>)\<rparr>
              else s1\<lparr>heap := (heap s1)(r := (heap s1 r)\<lparr>rc_Priority := priority\<rparr>)\<rparr>) = s2"
    by (simp add: s2_def p0_def)
  obtain input where inp: "input_add env (rc_InputHash (heap s2 r)) = Inr input"
    using Cons.prems n res s2 by (cases "input_add env (rc_InputHash (heap s2 r))") (auto simp: Let_def)
  define s2i where "s2i = AddRunContext r input s2"
  have f2i: "next_addr s2i = Suc (next_addr s)" "rc_GUID (heap s2i r) = guid"
    "rc_Priority (heap s2i r) = p0"
    using e1 r by (simp_all add: s2i_def s2_def AddRunContext_def)
  have step: "bind_outcome (AddRun (Some r) qid s2i)
                (\<lambda>s3. v1CompatInjectRuns env qid guids priority s3) = Returns (None, s')"
    using Cons.prems n res s2 inp by (simp add: Let_def s2i_def)
  then obtain s3 where a: "AddRun (Some r) qid s2i = Returns s3"
    and rest: "v1CompatInjectRuns env qid guids priority s3 = Returns (None, s')"
    by (cases "AddRun (Some r) qid s2i") auto
  note e3 = AddRun_effect [OF a]
  have f3: "next_addr s3 = Suc (next_addr s)" "rc_GUID (heap s3 r) = guid"
    "r \<in> set (buf (runs (queues s3 qid) p0))"
    using e3 f2i by simp_all
  note fr = v1CompatInjectRuns_frame [OF rest]
  have "heap s' r = heap s3 r" using fr f3(1) r by simp
  moreover have "r \<in> set (buf (runs (queues s' qid) p0))"
  proof -
    obtain new where "buf (runs (queues s' qid) p0) = buf (runs (queues s3 qid) p0) @ new"
      using fr by blast
    then show ?thesis using f3(3) by simp
  qed
  ultimately have first: "\<exists>a p. a \<in> set (buf (runs (queues s' qid) p)) \<and>
           next_addr s \<le> a \<and> rc_GUID (heap s' a) = guid"
    using f3(2) r by auto
  have "\<forall>g \<in> set guids. \<exists>a p. a \<in> set (buf (runs (queues s' qid) p)) \<and>
           next_addr s \<le> a \<and> rc_GUID (heap s' a) = g"
  proof
    fix g assume "g \<in> set guids"
    then obtain a p where "a \<in> set (buf (runs (queues s' qid) p))" "next_addr s3 \<le> a"
      "rc_GUID (heap s' a) = g"
      using Cons.IH [OF rest] by blast
    then show "\<exists>a p. a \<in> set (buf (runs (queues s' qid) p)) \<and>
           next_addr s \<le> a \<and> rc_GUID (heap s' a) = g"
      using f3(1) by (intro exI [of _ a] exI [of _ p]) simp
  qed
  then show ?case using first by simp
qed

text \<open>
  C10. When \<open>v1CompatInjectRuns\<close> returns, every run it put on the queue (the runs at
  addresses allocated during the call) carries the GUID of one of the requested runs and
  sits in the channel of its priority, which is low when the settings of its problem are
  marked slow, whatever priority was requested, and the requested priority otherwise;
  the runs that were queued before are untouched. When it returns no error, every
  requested GUID has been put on the queue.
\<close>

theorem v1CompatInjectRuns_priority:
  assumes wf: "\<forall>p. \<forall>a \<in> set (buf (runs (queues s qid) p)). a < next_addr s"
    and ret: "v1CompatInjectRuns env qid guids priority s = Returns (err, s')"
  shows "(\<forall>p. \<forall>a \<in> set (buf (runs (queues s' qid) p)).
            if a < next_addr s
            then a \<in> set (buf (runs (queues s qid) p)) \<and> heap s' a = heap s a
            else injected_as env guids priority s' a p) \<and>
         (err = None \<longrightarrow>
            (\<forall>guid \<in> set guids. \<exists>a p. a \<in> set (buf (runs (queues s' qid) p)) \<and>
               next_addr s \<le> a \<and> rc_GUID (heap s' a) = guid))"
proof (intro conjI allI ballI impI)
  fix p a assume a: "a \<in> set (buf (runs (queues s' qid) p))"
  note fr = v1CompatInjectRuns_frame [OF ret]
  obtain new where nw: "buf (runs (queues s' qid) p) = buf (runs (queues s qid) p) @ new"
    and ng: "\<forall>a \<in> set new. next_addr s \<le> a \<and> injected_as env guids priority s' a p"
    using fr by blast
  show "if a < next_addr s
        then a \<in> set (buf (runs (queues s qid) p)) \<and> heap s' a = heap s a
        else injected_as env guids priority s' a p"
  proof (cases "a < next_addr s")
    case True
    then have "a \<notin> set new" using ng by auto
    then have "a \<in> set (buf (runs (queues s qid) p))" using a nw by simp
    then show ?thesis using True fr by simp
  next
    case False
    then have "a \<notin> set (buf (runs (queues s qid) p))" using wf by auto
    then have "a \<in> set new" using a nw by simp
    then show ?thesis using False ng by simp
  qed
next
  fix guid assume "err = None" and g: "guid \<in> set guids"
  then have "v1CompatInjectRuns env qid guids priority s = Returns (None, s')" using ret by simp
  then show "\<exists>a p. a \<in> set (buf (runs (queues s' qid) p)) \<and>
               next_addr s \<le> a \<and> rc_GUID (heap s' a) = guid"
    using v1CompatInjectRuns_complete g by blast
qed

lemma slow_eval:
  "observe_injection 0 (v1CompatInjectRuns slow_env 0 [''aa'', ''bb''] QueuePriorityHigh (initial_grader 2)) =
     Returns (None, [], [], [0, 1], [(''aa'', QueuePriorityLow), (''bb'', QueuePriorityLow)])"
  by (simp add: slow_env_def v1CompatNewRunContext_def NewEmptyRunContext_def NewAttemptID_def
      initial_grader_def new_Queue_def make_chan_def AddRun_def enqueueBlocking_def try_send_def
      Let_def AddRunContext_def upt_rec)


theorem v1CompatInjectRuns_priority_witness:
  "(\<forall>p. buf (runs (queues (initial_grader 2) 0) p) = []) \<and>
   (\<exists>s'. v1CompatInjectRuns slow_env 0 [''aa'', ''bb''] QueuePriorityHigh (initial_grader 2) =
            Returns (None, s') \<and>
          buf (runs (queues s' 0) QueuePriorityLow) = [0, 1] \<and>
          injected_as slow_env [''aa'', ''bb''] QueuePriorityHigh s' 0 QueuePriorityLow \<and>
          injected_as slow_env [''aa'', ''bb''] QueuePriorityHigh s' 1 QueuePriorityLow \<and>
          rc_Priority (heap s' 0) = QueuePriorityLow \<and> rc_Priority (heap s' 1) = QueuePriorityLow)"
proof -
  let ?s = "initial_grader 2"
  have wf: "\<forall>p. \<forall>a \<in> set (buf (runs (queues ?s 0) p)). a < next_addr ?s"
    by (simp add: initial_grader_def new_Queue_def make_chan_def)
  have n0: "next_addr ?s = 0" by (simp add: initial_grader_def)
  obtain err s' where
    ret: "v1CompatInjectRuns slow_env 0 [''aa'', ''bb''] QueuePriorityHigh ?s = Returns (err, s')"
    using slow_eval
    by (cases "v1CompatInjectRuns slow_env 0 [''aa'', ''bb''] QueuePriorityHigh ?s") auto
  have "observe_injection 0 (Returns (err, s')) =
          Returns (None, [], [], [0, 1], [(''aa'', QueuePriorityLow), (''bb'', QueuePriorityLow)])"
    using slow_eval by (simp only: ret)
  then have ob: "err = None" "buf (runs (queues s' 0) QueuePriorityLow) = [0, 1]"
    by simp_all
  note T = v1CompatInjectRuns_priority [OF wf ret]
  have i0: "injected_as slow_env [''aa'', ''bb''] QueuePriorityHigh s' 0 QueuePriorityLow"
    using T ob(2) n0 by auto
  have i1: "injected_as slow_env [''aa'', ''bb''] QueuePriorityHigh s' 1 QueuePriorityLow"
    using T ob(2) n0 by auto
  have "rc_Priority (heap s' 0) = QueuePriorityLow" "rc_Priority (heap s' 1) = QueuePriorityLow"
    using i0 i1 by (auto simp: injected_as_def)
  moreover have "\<forall>p. buf (runs (queues ?s 0) p) = []"
    by (simp add: initial_grader_def new_Queue_def make_chan_def)
  ultimately show ?thesis using ret ob i0 i1 by blast
qed

section \<open>Properties of the output-only decoder\<close>

lemma HasSuffix_iff: "HasSuffix s suffix \<longleftrightarrow> (\<exists>stem. s = stem @ suffix)"
proof
  assume h: "HasSuffix s suffix"
  then have "s = take (length s - length suffix) s @ suffix"
    using append_take_drop_id [of "length s - length suffix" s] by (simp add: HasSuffix_def)
  then show "\<exists>stem. s = stem @ suffix" ..
next
  assume "\<exists>stem. s = stem @ suffix"
  then show "HasSuffix s suffix" by (auto simp: HasSuffix_def)
qed

lemma take1_drop: "take (Suc 0) (drop i s) = [c] \<longleftrightarrow> i < length s \<and> s ! i = c"
proof (cases "i < length s")
  case True
  then have "drop i s = s ! i # drop (Suc i) s" by (simp add: Cons_nth_drop_Suc)
  then show ?thesis using True by simp
next
  case False
  then show ?thesis by simp
qed

lemma LastIndex_upto_char:
  assumes "k < length s"
  shows "(LastIndex_upto k s [c] = - 1 \<and> (\<forall>j \<le> k. s ! j \<noteq> c)) \<or>
         (0 \<le> LastIndex_upto k s [c] \<and> nat (LastIndex_upto k s [c]) \<le> k \<and>
          s ! nat (LastIndex_upto k s [c]) = c \<and>
          (\<forall>j. nat (LastIndex_upto k s [c]) < j \<and> j \<le> k \<longrightarrow> s ! j \<noteq> c))"
  using assms
proof (induction k)
  case 0
  have "take (Suc 0) s = [c] \<longleftrightarrow> s ! 0 = c"
    using take1_drop [of 0 s c] 0 by simp
  then show ?case by simp
next
  case (Suc k)
  have m: "take (Suc 0) (drop (Suc k) s) = [c] \<longleftrightarrow> s ! Suc k = c"
    using take1_drop [of "Suc k" s c] Suc.prems by simp
  show ?case
  proof (cases "s ! Suc k = c")
    case True
    then have e: "LastIndex_upto (Suc k) s [c] = int (Suc k)" using m by simp
    have "0 \<le> int (Suc k) \<and> nat (int (Suc k)) \<le> Suc k \<and> s ! nat (int (Suc k)) = c \<and>
          (\<forall>j. nat (int (Suc k)) < j \<and> j \<le> Suc k \<longrightarrow> s ! j \<noteq> c)"
      using True unfolding nat_int by auto
    then show ?thesis unfolding e by blast
  next
    case False
    have ih: "(LastIndex_upto k s [c] = - 1 \<and> (\<forall>j \<le> k. s ! j \<noteq> c)) \<or>
         (0 \<le> LastIndex_upto k s [c] \<and> nat (LastIndex_upto k s [c]) \<le> k \<and>
          s ! nat (LastIndex_upto k s [c]) = c \<and>
          (\<forall>j. nat (LastIndex_upto k s [c]) < j \<and> j \<le> k \<longrightarrow> s ! j \<noteq> c))"
      using Suc by simp
    have e: "LastIndex_upto (Suc k) s [c] = LastIndex_upto k s [c]" using False m by simp
    show ?thesis
      unfolding e using ih False by (auto simp: le_Suc_eq)
  qed
qed

lemma basename_no_slash:
  assumes "CHR ''/'' \<notin> set s"
  shows "basename s = s"
proof -
  have "\<forall>x \<in> set (rev s). x \<noteq> CHR ''/''" using assms by auto
  then have tw: "takeWhile (\<lambda>c. c \<noteq> CHR ''/'') (rev s) = rev s"
    by (rule takeWhile_eq_all_conv [THEN iffD2])
  show ?thesis unfolding basename_def tw by simp
qed

lemma basename_last_slash:
  assumes "i < length s" and "s ! i = CHR ''/''"
    and "\<forall>j. i < j \<and> j < length s \<longrightarrow> s ! j \<noteq> CHR ''/''"
  shows "basename s = drop (Suc i) s"
proof -
  have s: "s = take i s @ CHR ''/'' # drop (Suc i) s"
    using assms(1,2) id_take_nth_drop [of i s] by simp
  have no: "\<forall>y \<in> set (rev (drop (Suc i) s)). y \<noteq> CHR ''/''"
  proof
    fix y assume "y \<in> set (rev (drop (Suc i) s))"
    then obtain n where "n < length (drop (Suc i) s)" "y = drop (Suc i) s ! n"
      by (auto simp: in_set_conv_nth)
    then show "y \<noteq> CHR ''/''" using assms(3) by simp
  qed
  have "rev s = rev (drop (Suc i) s) @ CHR ''/'' # rev (take i s)"
    by (subst s) simp
  then have "takeWhile (\<lambda>c. c \<noteq> CHR ''/'') (rev s) = rev (drop (Suc i) s)"
    using no by (simp add: takeWhile_tail)
  then show ?thesis by (simp add: basename_def)
qed

lemma code_basename:
  "(let idx = LastIndex s ''/'' in if idx \<noteq> - 1 then drop (nat (idx + 1)) s else s) = basename s"
proof (cases "s = []")
  case True
  then show ?thesis by (simp add: LastIndex_def basename_def)
next
  case False
  then have k: "length s - 1 < length s" by (cases s) auto
  have L: "LastIndex s ''/'' = LastIndex_upto (length s - 1) s ''/''"
    using False by (cases s) (simp_all add: LastIndex_def)
  from LastIndex_upto_char [OF k, of "CHR ''/''"]
  show ?thesis
  proof
    assume a: "LastIndex_upto (length s - 1) s ''/'' = - 1 \<and> (\<forall>j \<le> length s - 1. s ! j \<noteq> CHR ''/'')"
    then have "CHR ''/'' \<notin> set s"
      by (auto simp: in_set_conv_nth)
    then show ?thesis using a L by (simp add: basename_no_slash)
  next
    assume a: "0 \<le> LastIndex_upto (length s - 1) s ''/'' \<and>
       nat (LastIndex_upto (length s - 1) s ''/'') \<le> length s - 1 \<and>
       s ! nat (LastIndex_upto (length s - 1) s ''/'') = CHR ''/'' \<and>
       (\<forall>j. nat (LastIndex_upto (length s - 1) s ''/'') < j \<and> j \<le> length s - 1 \<longrightarrow> s ! j \<noteq> CHR ''/'')"
    define i where "i = nat (LastIndex_upto (length s - 1) s ''/'')"
    have i: "i < length s" "s ! i = CHR ''/''" "\<forall>j. i < j \<and> j < length s \<longrightarrow> s ! j \<noteq> CHR ''/''"
      using a k by (auto simp: i_def)
    have "nat (LastIndex s ''/'' + 1) = Suc i" using a L by (simp add: i_def nat_add_distrib)
    moreover have "LastIndex s ''/'' \<noteq> - 1" using a L by simp
    ultimately show ?thesis using basename_last_slash [OF i] by (simp add: Let_def)
  qed
qed

lemma foldl_insert_image: "foldl (\<lambda>A x. insert (f x) A) A xs = A \<union> f ` set xs"
  by (induction xs arbitrary: A) auto

lemma expectedFileNames_iff:
  "x \<in> expectedFileNames settings \<longleftrightarrow>
     (\<exists>g \<in> set (Cases settings). \<exists>c \<in> set (gs_Cases g). x = cs_Name c @ ''.out'')"
proof -
  have H: "foldl (\<lambda>names g. foldl (\<lambda>names c. insert (cs_Name c @ ''.out'') names) names (gs_Cases g)) A gs =
        A \<union> (\<Union>g \<in> set gs. (\<lambda>c. cs_Name c @ ''.out'') ` set (gs_Cases g))" for A gs
    by (induction gs arbitrary: A) (auto simp: foldl_insert_image)
  show ?thesis by (auto simp: expectedFileNames_def H)
qed

lemma too_large_iff:
  assumes "0 \<le> sint (OutputLimit (Limits settings))"
  shows "ze_UncompressedSize64 f > OutputLimit (Limits settings) \<longleftrightarrow> too_large settings f"
proof -
  have "sint (OutputLimit (Limits settings)) < 2 ^ 64"
    using sint_lt [of "OutputLimit (Limits settings)"] by simp
  then have "take_bit 64 (sint (OutputLimit (Limits settings))) = sint (OutputLimit (Limits settings))"
    using assms by (simp add: take_bit_int_eq_self)
  then have "sint (OutputLimit (Limits settings)) = uint (OutputLimit (Limits settings))"
    using uint_sint [of "OutputLimit (Limits settings)"] by simp
  then show ?thesis by (simp add: too_large_def word_less_def)
qed


lemma accepted_code:
  "accepted settings f \<longleftrightarrow>
     HasSuffix (ze_Name f) ''.out'' \<and> basename (ze_Name f) \<in> expectedFileNames settings"
  by (simp add: accepted_def HasSuffix_iff expectedFileNames_iff)

lemma parseEntries_step:
  assumes "0 \<le> sint (OutputLimit (Limits settings))"
  shows "parseEntries settings (f # fs) result =
           parseEntries settings fs
             (if stored settings f then result(basename (ze_Name f) \<mapsto> entry_text settings f)
              else result)"
proof -
  have b: "(if LastIndex (ze_Name f) ''/'' \<noteq> - 1
            then drop (nat (LastIndex (ze_Name f) ''/'' + 1)) (ze_Name f) else ze_Name f) =
           basename (ze_Name f)"
    using code_basename [of "ze_Name f"] by (simp add: Let_def)
  show ?thesis
    by (cases "ze_contents f")
      (auto simp: Let_def b too_large_iff [OF assms] stored_def accepted_code readable_def
        entry_text_def)
qed

lemma find_snoc:
  "find P (xs @ [x]) = (case find P xs of Some y \<Rightarrow> Some y | None \<Rightarrow> if P x then Some x else None)"
  by (induction xs) auto

lemma parseEntries_find:
  assumes "0 \<le> sint (OutputLimit (Limits settings))"
  shows "parseEntries settings fs result k =
           (case find (\<lambda>f. stored settings f \<and> basename (ze_Name f) = k) (rev fs) of
              Some f \<Rightarrow> Some (entry_text settings f)
            | None \<Rightarrow> result k)"
proof (induction fs arbitrary: result)
  case Nil
  show ?case by simp
next
  case (Cons f fs)
  show ?case
    unfolding parseEntries_step [OF assms] Cons.IH
    by (auto simp: find_snoc split: option.splits)
qed


lemma find_Some_mem: "find P xs = Some x \<Longrightarrow> x \<in> set xs \<and> P x"
  by (induction xs) (auto split: if_splits)

lemma find_cong_set:
  "(\<And>x. x \<in> set xs \<Longrightarrow> P x = Q x) \<Longrightarrow> find P xs = find Q xs"
  by (induction xs) auto

text \<open>
  C7. When the source is not a data URL, \<open>parseOutputOnlyFile\<close> returns the single entry
  \<open>Main.out \<mapsto> source\<close>. When it is a data URL whose payload is a zip archive whose accepted
  entries within the limit can be read, and the output limit is not negative, the keys of
  the map are exactly the basenames of the accepted entries (name ending in \<open>.out\<close>, basename
  \<open><caseName>.out\<close> for a declared case); each key is mapped to the text of the last accepted
  entry with that basename: the empty string when its uncompressed size exceeds the output
  limit, its contents otherwise.
\<close>

theorem parseOutputOnlyFile_mapping:
  assumes lim: "0 \<le> sint (OutputLimit (Limits settings))"
  shows "(\<forall>err. DecodeString lib data = Inl err \<longrightarrow>
            parseOutputOnlyFile lib data settings = (Map.empty(''Main.out'' \<mapsto> data), None)) \<and>
         (\<forall>payload files.
            DecodeString lib data = Inr payload \<and> NewReader lib payload = Inr files \<and>
            (\<forall>f \<in> set files. accepted settings f \<and> \<not> too_large settings f \<longrightarrow> readable f) \<longrightarrow>
            (\<exists>m. parseOutputOnlyFile lib data settings = (m, None) \<and>
                 dom m = {basename (ze_Name f) | f. f \<in> set files \<and> accepted settings f} \<and>
                 (\<forall>k f. find (\<lambda>f. accepted settings f \<and> basename (ze_Name f) = k) (rev files) = Some f \<longrightarrow>
                        m k = Some (entry_text settings f))))"
proof (intro conjI allI impI)
  fix err assume "DecodeString lib data = Inl err"
  then show "parseOutputOnlyFile lib data settings = (Map.empty(''Main.out'' \<mapsto> data), None)"
    by (simp add: parseOutputOnlyFile_def)
next
  fix payload files
  assume a: "DecodeString lib data = Inr payload \<and> NewReader lib payload = Inr files \<and>
            (\<forall>f \<in> set files. accepted settings f \<and> \<not> too_large settings f \<longrightarrow> readable f)"
  define m where "m = parseEntries settings files Map.empty"
  have p: "parseOutputOnlyFile lib data settings = (m, None)"
    using a by (simp add: parseOutputOnlyFile_def m_def)
  have st: "stored settings f = accepted settings f" if "f \<in> set files" for f
    using a that by (auto simp: stored_def)
  have fnd: "find (\<lambda>f. stored settings f \<and> basename (ze_Name f) = k) (rev files) =
             find (\<lambda>f. accepted settings f \<and> basename (ze_Name f) = k) (rev files)" for k
    by (rule find_cong_set) (simp add: st)
  have mk: "m k = (case find (\<lambda>f. accepted settings f \<and> basename (ze_Name f) = k) (rev files) of
                     Some f \<Rightarrow> Some (entry_text settings f) | None \<Rightarrow> None)" for k
    unfolding m_def parseEntries_find [OF lim] fnd by simp
  have d: "dom m = {basename (ze_Name f) | f. f \<in> set files \<and> accepted settings f}"
  proof (intro set_eqI iffI)
    fix k assume "k \<in> dom m"
    then obtain f where "find (\<lambda>f. accepted settings f \<and> basename (ze_Name f) = k) (rev files) = Some f"
      by (auto simp: mk split: option.splits)
    then have "f \<in> set files \<and> accepted settings f \<and> basename (ze_Name f) = k"
      using find_Some_mem by fastforce
    then show "k \<in> {basename (ze_Name f) | f. f \<in> set files \<and> accepted settings f}" by blast
  next
    fix k assume "k \<in> {basename (ze_Name f) | f. f \<in> set files \<and> accepted settings f}"
    then have "find (\<lambda>f. accepted settings f \<and> basename (ze_Name f) = k) (rev files) \<noteq> None"
      by (auto simp: find_None_iff)
    then show "k \<in> dom m" by (auto simp: mk split: option.splits)
  qed
  have v: "\<forall>k f. find (\<lambda>f. accepted settings f \<and> basename (ze_Name f) = k) (rev files) = Some f \<longrightarrow>
                 m k = Some (entry_text settings f)"
    by (simp add: mk)
  show "\<exists>m. parseOutputOnlyFile lib data settings = (m, None) \<and>
             dom m = {basename (ze_Name f) | f. f \<in> set files \<and> accepted settings f} \<and>
             (\<forall>k f. find (\<lambda>f. accepted settings f \<and> basename (ze_Name f) = k) (rev files) = Some f \<longrightarrow>
                    m k = Some (entry_text settings f))"
    using p d v by blast
qed

lemma sample_accepted:
  "accepted sample_settings \<lparr>ze_Name = ''dir/a.out'', ze_UncompressedSize64 = 3, ze_contents = Inr ''abc''\<rparr>"
  "accepted sample_settings \<lparr>ze_Name = ''b.out'', ze_UncompressedSize64 = 11, ze_contents = Inr ''01234567890''\<rparr>"
  "\<not> accepted sample_settings \<lparr>ze_Name = ''c.out'', ze_UncompressedSize64 = 1, ze_contents = Inr ''c''\<rparr>"
  "\<not> accepted sample_settings \<lparr>ze_Name = ''a.txt'', ze_UncompressedSize64 = 1, ze_contents = Inr ''t''\<rparr>"
  by (simp_all add: accepted_code HasSuffix_def basename_def expectedFileNames_def sample_settings_def)

theorem parseOutputOnlyFile_mapping_witness:
  "0 \<le> sint (OutputLimit (Limits sample_settings)) \<and>
   parseOutputOnlyFile sample_lib ''print 1'' sample_settings =
     (Map.empty(''Main.out'' \<mapsto> ''print 1''), None) \<and>
   (\<exists>m. parseOutputOnlyFile sample_lib ''data:PK'' sample_settings = (m, None) \<and>
        dom m = {''a.out'', ''b.out''} \<and>
        m ''a.out'' = Some ''abc'' \<and> m ''b.out'' = Some [])"
proof -
  have lim: "0 \<le> sint (OutputLimit (Limits sample_settings))"
    by (simp add: sample_settings_def)
  note T = parseOutputOnlyFile_mapping [OF lim, of sample_lib]
  have d1: "DecodeString sample_lib ''print 1'' = Inl (GoError ''missing data prefix'')"
    by (simp add: sample_lib_def)
  have c1: "parseOutputOnlyFile sample_lib ''print 1'' sample_settings =
     (Map.empty(''Main.out'' \<mapsto> ''print 1''), None)"
    using T [of "''print 1''"] d1 by blast
  have d2: "DecodeString sample_lib ''data:PK'' = Inr ''PK'' \<and>
            NewReader sample_lib ''PK'' = Inr sample_archive \<and>
            (\<forall>f \<in> set sample_archive.
               accepted sample_settings f \<and> \<not> too_large sample_settings f \<longrightarrow> readable f)"
    by (simp add: sample_lib_def sample_archive_def readable_def)
  obtain m where m: "parseOutputOnlyFile sample_lib ''data:PK'' sample_settings = (m, None)"
    and dm: "dom m = {basename (ze_Name f) | f. f \<in> set sample_archive \<and> accepted sample_settings f}"
    and vm: "\<And>k f. find (\<lambda>f. accepted sample_settings f \<and> basename (ze_Name f) = k)
                      (rev sample_archive) = Some f \<Longrightarrow> m k = Some (entry_text sample_settings f)"
    using T [of "''data:PK''"] d2 by blast
  have "{basename (ze_Name f) | f. f \<in> set sample_archive \<and> accepted sample_settings f} =
        (\<lambda>f. basename (ze_Name f)) ` set (filter (accepted sample_settings) sample_archive)"
    by auto
  also have "\<dots> = {''a.out'', ''b.out''}"
    by (simp add: sample_archive_def sample_accepted basename_def)
  finally have k: "dom m = {''a.out'', ''b.out''}" using dm by simp
  have "find (\<lambda>f. accepted sample_settings f \<and> basename (ze_Name f) = ''a.out'') (rev sample_archive) =
        Some \<lparr>ze_Name = ''dir/a.out'', ze_UncompressedSize64 = 3, ze_contents = Inr ''abc''\<rparr>"
    by (simp add: sample_archive_def sample_accepted basename_def)
  then have a: "m ''a.out'' = Some ''abc''"
    using vm by (simp add: entry_text_def too_large_def sample_settings_def)
  have "find (\<lambda>f. accepted sample_settings f \<and> basename (ze_Name f) = ''b.out'') (rev sample_archive) =
        Some \<lparr>ze_Name = ''b.out'', ze_UncompressedSize64 = 11, ze_contents = Inr ''01234567890''\<rparr>"
    by (simp add: sample_archive_def sample_accepted basename_def)
  then have b: "m ''b.out'' = Some []"
    using vm by (simp add: entry_text_def too_large_def sample_settings_def)
  show ?thesis using lim c1 m k a b by blast
qed

section \<open>Properties of Grade\<close>

lemmas grade_eval =
  Grade_def gradeCases_def newRunResult_def addValidator_def compileLang_def compileErrorFile_def
  getCompileError_def runCase_def validateCase_def finalVerdict_def quo_def aggregateCase_def
  aggregation_start_def RunMetadata_of_Verdict_def max64_def caseFiles_def Join_def Let_def
  sample_world_def sample_run_def sample_settings_def sample_staging_def sample_Main_def
  worseVerdict_known verdictList_def verdictIndex_def


text \<open>
  C1 (the code at a failing input). Two cases of weight one half in one group: the sandbox
  reports RTE for the first and OK for the second, whose output is correct. The validation
  loop skips the first case without clearing \<open>correct\<close>, so the group is awarded the score
  \<open>1/2\<close> although one of its cases has the verdict RTE.
\<close>

theorem group_scored_despite_RTE:
  "observe_grade (Grade (sample_world [''RTE'', ''OK''] [1, 1]) sample_run sample_settings sample_staging) =
     Inr (''RTE'', 1 / 2, 50, None, [(1 / 2, [''RTE'', ''AC''])], None)"
  by (simp add: grade_eval)

text \<open>
  C3 (the code at a failing input). Two contestant binaries that used 100 and 50 bytes:
  the statement \<open>totalMemory += max64(totalMemory, m)\<close> reports 200 bytes for the case, more
  than either binary used; time and wall time are the sums.
\<close>

theorem case_memory_exceeds_maximum:
  "aggregateCase 2
     [(Some \<lparr>m_Verdict = ''OK'', m_Time = 1 / 4, m_WallTime = 1 / 2, m_Memory = 100, m_Status = 0\<rparr>,
       binaryContestant),
      (Some \<lparr>m_Verdict = ''OK'', m_Time = 1 / 4, m_WallTime = 1 / 2, m_Memory = 50, m_Status = 0\<rparr>,
       binaryContestant)] =
   Inr \<lparr>m_Verdict = ''OK'', m_Time = 1 / 2, m_WallTime = 1, m_Memory = 200, m_Status = 0\<rparr>"
  by (simp add: aggregateCase_def aggregation_start_def RunMetadata_of_Verdict_def max64_def
      numeral_2_eq_2)

lemma compileBinaries_fails:
  assumes "\<forall>b' \<in> set pre. \<exists>m. sb_Compile w (compileLang b') b' = (Some m, None) \<and> m_Verdict m = ''OK''"
    and "sb_Compile w (compileLang b) b = (compileMeta, err)"
    and "err \<noteq> None \<or> (\<exists>m. compileMeta = Some m \<and> m_Verdict m \<noteq> ''OK'')"
  shows "\<exists>r. compileBinaries w (pre @ b # post) (runResult, generatedFiles) = Inr (Return r err) \<and>
           rr_Verdict r = ''CE'' \<and>
           rr_CompileError r = Some (b_name b @ [CHR '':'', CHR 0x0A] @
             getCompileError w (Join [runRoot w, b_name b, compileErrorFile b])) \<and>
           rr_Groups r = rr_Groups runResult \<and>
           (case compileMeta of None \<Rightarrow> True | Some m \<Rightarrow> rr_CompileMeta r (b_name b) = Some m)"
  using assms(1)
proof (induction pre arbitrary: runResult generatedFiles)
  case Nil
  show ?case
    using assms(2,3) by (cases compileMeta) (auto simp: Let_def)
next
  case (Cons a pre)
  obtain m where m: "sb_Compile w (compileLang a) a = (Some m, None)" "m_Verdict m = ''OK''"
    using Cons.prems by auto
  have rest: "\<forall>b' \<in> set pre. \<exists>m. sb_Compile w (compileLang b') b' = (Some m, None) \<and> m_Verdict m = ''OK''"
    using Cons.prems by simp
  let ?r1 = "runResult\<lparr>rr_CompileMeta := (rr_CompileMeta runResult)(b_name a \<mapsto> m)\<rparr>"
  let ?g1 = "generatedFiles @
              [Join [b_name a, ''compile.out''], Join [b_name a, ''compile.err''],
               Join [b_name a, ''compile.meta'']]"
  obtain r where r: "compileBinaries w (pre @ b # post) (?r1, ?g1) = Inr (Return r err)"
    "rr_Verdict r = ''CE''"
    "rr_CompileError r = Some (b_name b @ [CHR '':'', CHR 0x0A] @
             getCompileError w (Join [runRoot w, b_name b, compileErrorFile b]))"
    "rr_Groups r = rr_Groups ?r1"
    "(case compileMeta of None \<Rightarrow> True | Some m \<Rightarrow> rr_CompileMeta r (b_name b) = Some m)"
    using Cons.IH [OF rest, of ?r1 ?g1] by blast
  have "compileBinaries w ((a # pre) @ b # post) (runResult, generatedFiles) = Inr (Return r err)"
    using r(1) m by (simp add: Let_def)
  then show ?case using r by auto
qed

lemma compileBinaries_world:
  "compileBinaries (w\<lparr>sb_Run := f, sb_Validate := g\<rparr>) bs st = compileBinaries w bs st"
proof (induction bs arbitrary: st)
  case Nil
  show ?case by (cases st) simp
next
  case (Cons b bs)
  show ?case
    by (cases st) (simp add: Cons.IH getCompileError_def Let_def split: prod.splits option.splits)
qed

lemma addValidator_world:
  "addValidator (w\<lparr>sb_Run := f, sb_Validate := g\<rparr>) settings r bs = addValidator w settings r bs"
  by (simp add: addValidator_def Let_def split: option.splits)

text \<open>
  C6. When the binaries before \<open>b\<close> compile and \<open>b\<close> does not (the sandbox returns an error
  or a verdict other than OK), \<open>Grade\<close> returns that error with the verdict CE, with
  \<open>CompileError\<close> the name of \<open>b\<close>, a colon and a newline followed by what \<open>getCompileError\<close>
  reads from \<open>compile.out\<close> (language \<open>pas\<close>) or \<open>compile.err\<close> (any other language) of \<open>b\<close>,
  which is the contents of that file when it can be read, and with no group results; the
  result does not depend on what running or validating a case would give.
\<close>

theorem Grade_compile_error:
  assumes sup: "sb_Supported w"
    and st: "staged = Staged binaries0 outputOnlyFiles meta"
    and av: "addValidator w settings ((newRunResult run)\<lparr>rr_CompileMeta := meta\<rparr>) binaries0 =
               Inr (Next (pre @ b # post))"
    and ok: "\<forall>b' \<in> set pre. \<exists>m. sb_Compile w (compileLang b') b' = (Some m, None) \<and> m_Verdict m = ''OK''"
    and c: "sb_Compile w (compileLang b) b = (compileMeta, err)"
    and bad: "err \<noteq> None \<or> (\<exists>m. compileMeta = Some m \<and> m_Verdict m \<noteq> ''OK'')"
  shows "\<exists>res. Grade w run settings staged = Inr (res, err) \<and>
           rr_Verdict res = ''CE'' \<and>
           rr_CompileError res = Some (b_name b @ [CHR '':'', CHR 0x0A] @
             getCompileError w
               (Join [runRoot w, b_name b,
                      if b_language b = ''pas'' then ''compile.out'' else ''compile.err''])) \<and>
           (\<forall>contents.
              fs_ReadFile w
                (Join [runRoot w, b_name b,
                       if b_language b = ''pas'' then ''compile.out'' else ''compile.err'']) = Inr contents \<longrightarrow>
              rr_CompileError res = Some (b_name b @ [CHR '':'', CHR 0x0A] @ contents)) \<and>
           rr_Groups res = [] \<and>
           (\<forall>f g. Grade (w\<lparr>sb_Run := f, sb_Validate := g\<rparr>) run settings staged = Inr (res, err))"
proof -
  let ?r0 = "(newRunResult run)\<lparr>rr_CompileMeta := meta\<rparr>"
  obtain r where cb: "compileBinaries w (pre @ b # post) (?r0, []) = Inr (Return r err)"
    and v: "rr_Verdict r = ''CE''"
    and ce: "rr_CompileError r = Some (b_name b @ [CHR '':'', CHR 0x0A] @
             getCompileError w (Join [runRoot w, b_name b, compileErrorFile b]))"
    and g: "rr_Groups r = rr_Groups ?r0"
    using compileBinaries_fails [OF ok c bad] by blast
  have G: "Grade w run settings staged = Inr (r, err)"
    using sup st av cb by (simp add: Grade_def gradeCases_def)
  have G': "Grade (w\<lparr>sb_Run := f, sb_Validate := g\<rparr>) run settings staged = Inr (r, err)" for f g
    using sup st av cb
    by (simp add: Grade_def gradeCases_def compileBinaries_world addValidator_world)
  have ce': "rr_CompileError r = Some (b_name b @ [CHR '':'', CHR 0x0A] @
             getCompileError w
               (Join [runRoot w, b_name b,
                      if b_language b = ''pas'' then ''compile.out'' else ''compile.err'']))"
    using ce by (simp add: compileErrorFile_def)
  have "rr_Groups r = []" using g by (simp add: newRunResult_def)
  then show ?thesis
    using G G' v ce' by (auto simp: getCompileError_def)
qed

theorem Grade_compile_error_witness:
  "\<exists>res. Grade broken_validator_world sample_run custom_settings sample_staging = Inr (res, None) \<and>
         rr_Verdict res = ''CE'' \<and>
         rr_CompileError res = Some (''validator'' @ [CHR '':'', CHR 0x0A] @ ''Fatal: Syntax error'') \<and>
         rr_Groups res = []"
proof -
  let ?w = broken_validator_world
  have sup: "sb_Supported ?w" by (simp add: broken_validator_world_def sample_world_def)
  have st: "sample_staging = Staged [sample_Main] Map.empty Map.empty" by (simp add: sample_staging_def)
  have av: "addValidator ?w custom_settings ((newRunResult sample_run)\<lparr>rr_CompileMeta := Map.empty\<rparr>)
              [sample_Main] = Inr (Next ([sample_Main] @ validator_binary # []))"
    by (simp add: addValidator_def custom_settings_def sample_settings_def broken_validator_world_def
        sample_world_def Join_def Let_def validator_binary_def)
  have ok: "\<forall>b' \<in> set [sample_Main].
              \<exists>m. sb_Compile ?w (compileLang b') b' = (Some m, None) \<and> m_Verdict m = ''OK''"
    by (simp add: broken_validator_world_def sample_world_def sample_Main_def RunMetadata_of_Verdict_def)
  have c: "sb_Compile ?w (compileLang validator_binary) validator_binary =
             (Some (RunMetadata_of_Verdict ''CE''), None)"
    by (simp add: broken_validator_world_def sample_world_def validator_binary_def)
  have bad: "None \<noteq> (None :: go_error option) \<or>
             (\<exists>m. Some (RunMetadata_of_Verdict ''CE'') = Some m \<and> m_Verdict m \<noteq> ''OK'')"
    by (simp add: RunMetadata_of_Verdict_def)
  have rd: "fs_ReadFile ?w
              (Join [runRoot ?w, b_name validator_binary,
                     if b_language validator_binary = ''pas'' then ''compile.out'' else ''compile.err'']) =
            Inr ''Fatal: Syntax error''"
    by (simp add: broken_validator_world_def sample_world_def validator_binary_def Join_def)
  from Grade_compile_error [OF sup st av ok c bad] rd
  show ?thesis
    by (auto simp: validator_binary_def)
qed

lemma bind_panic_eq_Inr:
  "bind_panic m f = Inr y \<longleftrightarrow> (\<exists>x. m = Inr x \<and> f x = Inr y)"
  by (cases m) auto

lemma runCase_MaxScore:
  assumes "runCase job i j caseData (runResult, generatedFiles) = Inr (caseResult, runResult', generatedFiles')"
  shows "rr_MaxScore runResult' = rr_MaxScore runResult"
  using assms
  by (auto simp: runCase_def Let_def bind_panic_eq_Inr split: if_splits prod.splits)

lemma runCases_MaxScore:
  assumes "runCases job i j cases (runResult, generatedFiles) = Inr (caseResults, runResult', generatedFiles')"
  shows "rr_MaxScore runResult' = rr_MaxScore runResult"
  using assms
proof (induction cases arbitrary: j runResult generatedFiles caseResults)
  case Nil
  then show ?case by simp
next
  case (Cons c cases)
  then obtain cr r1 g1 crs where
    a: "runCase job i j c (runResult, generatedFiles) = Inr (cr, r1, g1)"
    and b: "runCases job i (Suc j) cases (r1, g1) = Inr (crs, runResult', generatedFiles')"
    by (auto simp: bind_panic_eq_Inr)
  show ?case using runCase_MaxScore [OF a] Cons.IH [OF b] by simp
qed

lemma runGroups_MaxScore:
  assumes "runGroups job i groups (runResult, generatedFiles) = Inr (groupResults, runResult', generatedFiles')"
  shows "rr_MaxScore runResult' = rr_MaxScore runResult"
  using assms
proof (induction groups arbitrary: i runResult generatedFiles groupResults)
  case Nil
  then show ?case by simp
next
  case (Cons g groups)
  then obtain crs r1 g1 grs where
    a: "runCases job i 0 (gs_Cases g) (runResult, generatedFiles) = Inr (crs, r1, g1)"
    and b: "runGroups job (Suc i) groups (r1, g1) = Inr (grs, runResult', generatedFiles')"
    by (auto simp: bind_panic_eq_Inr)
  show ?case using runCases_MaxScore [OF a] Cons.IH [OF b] by simp
qed

lemma validateCase_MaxScore:
  assumes "validateCase job i j caseData caseResult (runResult, generatedFiles, correct, score) =
             Inr (caseResult', runResult', rest)"
  shows "rr_MaxScore runResult' = rr_MaxScore runResult"
  using assms
  by (auto simp: validateCase_def Let_def bind_panic_eq_Inr split: if_splits prod.splits option.splits)

lemma validateCases_MaxScore:
  assumes "validateCases job i j cases caseResults (runResult, rest) = Inr (caseResults', runResult', rest')"
  shows "rr_MaxScore runResult' = rr_MaxScore runResult"
  using assms
proof (induction cases arbitrary: j caseResults runResult rest caseResults')
  case Nil
  then show ?case by simp
next
  case (Cons caseData cases)
  obtain gf correct score where rest: "rest = (gf, correct, score)" by (cases rest)
  obtain caseResult crs0 where cr: "caseResults = caseResult # crs0"
    using Cons.prems by (cases caseResults) auto
  from Cons.prems obtain cr1 r1 rest1 crs where
    a: "validateCase job i j caseData caseResult (runResult, gf, correct, score) = Inr (cr1, r1, rest1)"
    and b: "validateCases job i (Suc j) cases crs0 (r1, rest1) = Inr (crs, runResult', rest')"
    by (auto simp: bind_panic_eq_Inr rest cr)
  show ?case using validateCase_MaxScore [OF a] Cons.IH [OF b] by simp
qed

lemma validateGroups_MaxScore:
  assumes "validateGroups job i groups groupResults (runResult, generatedFiles) =
             Inr (groupResults', runResult', generatedFiles')"
  shows "rr_MaxScore runResult' = rr_MaxScore runResult"
  using assms
proof (induction groups arbitrary: i groupResults runResult generatedFiles groupResults')
  case Nil
  then show ?case by simp
next
  case (Cons g groups)
  obtain gr grs0 where gr: "groupResults = gr # grs0"
    using Cons.prems by (cases groupResults) auto
  from Cons.prems obtain crs r1 g1 correct score grs where
    a: "validateCases job i 0 (gs_Cases g) (gr_Cases gr) (runResult, generatedFiles, True, 0) =
          Inr (crs, r1, g1, correct, score)"
    and b: "validateGroups job (Suc i) groups grs0
              (if correct
               then r1\<lparr>rr_Score := rr_Score r1 + score,
                      rr_ContestScore := rr_ContestScore r1 + rr_MaxScore r1 * score\<rparr>
               else r1, g1) = Inr (grs, runResult', generatedFiles')"
    by (auto simp: bind_panic_eq_Inr gr Let_def split: if_splits)
  show ?case
    using validateCases_MaxScore [OF a] Cons.IH [OF b] by (simp split: if_splits)
qed

lemma compileBinaries_MaxScore:
  assumes "compileBinaries w bs (runResult, generatedFiles) = Inr (Next (runResult', generatedFiles'))"
  shows "rr_MaxScore runResult' = rr_MaxScore runResult"
  using assms
proof (induction bs arbitrary: runResult generatedFiles)
  case Nil
  then show ?case by simp
next
  case (Cons b bs)
  then show ?case
    by (fastforce simp: Let_def split: prod.splits option.splits if_splits)
qed

lemma gradeCases_NextE:
  assumes "gradeCases w run settings staged = Inr (Next (runResult, generatedFiles))"
  obtains binaries0 outputOnlyFiles meta binaries r1 g1 grs r2 g2 grs3 r3 where
    "sb_Supported w" and "staged = Staged binaries0 outputOnlyFiles meta"
    and "addValidator w settings ((newRunResult run)\<lparr>rr_CompileMeta := meta\<rparr>) binaries0 =
             Inr (Next binaries)"
    and "compileBinaries w binaries ((newRunResult run)\<lparr>rr_CompileMeta := meta\<rparr>, []) =
             Inr (Next (r1, g1))"
    and "runGroups \<lparr>j_world = w, j_run = run, j_settings = settings, j_binaries = binaries,
                      j_regularBinaryCount = length binaries0, j_outputOnlyFiles = outputOnlyFiles,
                      j_wallTimeLimit =
                        real_of_int (quo (sint (OverallWallTimeLimit (Limits settings))) 1000)\<rparr>
             0 (Cases settings) (r1\<lparr>rr_Verdict := ''OK''\<rparr>, g1) = Inr (grs, r2, g2)"
    and "validateGroups \<lparr>j_world = w, j_run = run, j_settings = settings, j_binaries = binaries,
                      j_regularBinaryCount = length binaries0, j_outputOnlyFiles = outputOnlyFiles,
                      j_wallTimeLimit =
                        real_of_int (quo (sint (OverallWallTimeLimit (Limits settings))) 1000)\<rparr>
             0 (Cases settings) grs (r2, g2) = Inr (grs3, r3, generatedFiles)"
    and "runResult = r3\<lparr>rr_Groups := grs3\<rparr>"
proof -
  have sup: "sb_Supported w" using assms by (auto simp: gradeCases_def split: if_splits)
  obtain binaries0 outputOnlyFiles meta where st: "staged = Staged binaries0 outputOnlyFiles meta"
    using assms sup by (cases staged) (auto simp: gradeCases_def)
  let ?r0 = "(newRunResult run)\<lparr>rr_CompileMeta := meta\<rparr>"
  let ?job = "\<lambda>binaries. \<lparr>j_world = w, j_run = run, j_settings = settings, j_binaries = binaries,
                      j_regularBinaryCount = length binaries0, j_outputOnlyFiles = outputOnlyFiles,
                      j_wallTimeLimit =
                        real_of_int (quo (sint (OverallWallTimeLimit (Limits settings))) 1000)\<rparr>"
  have g: "bind_panic (addValidator w settings ?r0 binaries0)
             (\<lambda>planned. case planned of
                Return r err \<Rightarrow> Inr (Return r err)
              | Next binaries \<Rightarrow>
                  bind_panic (compileBinaries w binaries (?r0, []))
                    (\<lambda>compiled. case compiled of
                       Return r err \<Rightarrow> Inr (Return r err)
                     | Next (runResult1, generatedFiles1) \<Rightarrow>
                         bind_panic
                           (runGroups (?job binaries) 0 (Cases settings)
                              (runResult1\<lparr>rr_Verdict := ''OK''\<rparr>, generatedFiles1))
                           (\<lambda>(groupResults, runResult2, generatedFiles2).
                              bind_panic
                                (validateGroups (?job binaries) 0 (Cases settings) groupResults
                                   (runResult2, generatedFiles2))
                                (\<lambda>(groupResults3, runResult3, generatedFiles3).
                                   Inr (Next (runResult3\<lparr>rr_Groups := groupResults3\<rparr>,
                                              generatedFiles3)))))) =
           Inr (Next (runResult, generatedFiles))"
    using assms sup st by (simp add: gradeCases_def Let_def)
  then obtain planned where av0: "addValidator w settings ?r0 binaries0 = Inr planned"
    and g1: "(case planned of
                Return r err \<Rightarrow> Inr (Return r err)
              | Next binaries \<Rightarrow>
                  bind_panic (compileBinaries w binaries (?r0, []))
                    (\<lambda>compiled. case compiled of
                       Return r err \<Rightarrow> Inr (Return r err)
                     | Next (runResult1, generatedFiles1) \<Rightarrow>
                         bind_panic
                           (runGroups (?job binaries) 0 (Cases settings)
                              (runResult1\<lparr>rr_Verdict := ''OK''\<rparr>, generatedFiles1))
                           (\<lambda>(groupResults, runResult2, generatedFiles2).
                              bind_panic
                                (validateGroups (?job binaries) 0 (Cases settings) groupResults
                                   (runResult2, generatedFiles2))
                                (\<lambda>(groupResults3, runResult3, generatedFiles3).
                                   Inr (Next (runResult3\<lparr>rr_Groups := groupResults3\<rparr>,
                                              generatedFiles3)))))) =
           Inr (Next (runResult, generatedFiles))"
    unfolding bind_panic_eq_Inr by blast
  obtain binaries where pl: "planned = Next binaries" using g1 by (cases planned) auto
  from g1 pl obtain compiled where cb0: "compileBinaries w binaries (?r0, []) = Inr compiled"
    and g2: "(case compiled of
                Return r err \<Rightarrow> Inr (Return r err)
              | Next (runResult1, generatedFiles1) \<Rightarrow>
                  bind_panic
                    (runGroups (?job binaries) 0 (Cases settings)
                       (runResult1\<lparr>rr_Verdict := ''OK''\<rparr>, generatedFiles1))
                    (\<lambda>(groupResults, runResult2, generatedFiles2).
                       bind_panic
                         (validateGroups (?job binaries) 0 (Cases settings) groupResults
                            (runResult2, generatedFiles2))
                         (\<lambda>(groupResults3, runResult3, generatedFiles3).
                            Inr (Next (runResult3\<lparr>rr_Groups := groupResults3\<rparr>,
                                       generatedFiles3))))) =
           Inr (Next (runResult, generatedFiles))"
    by (auto simp: bind_panic_eq_Inr)
  obtain r1 gf1 where co: "compiled = Next (r1, gf1)" using g2 by (cases compiled) auto
  from g2 co obtain grs r2 g2' where rg: "runGroups (?job binaries) 0 (Cases settings)
                       (r1\<lparr>rr_Verdict := ''OK''\<rparr>, gf1) = Inr (grs, r2, g2')"
    and g3: "bind_panic (validateGroups (?job binaries) 0 (Cases settings) grs (r2, g2'))
               (\<lambda>(groupResults3, runResult3, generatedFiles3).
                  Inr (Next (runResult3\<lparr>rr_Groups := groupResults3\<rparr>, generatedFiles3))) =
             Inr (Next (runResult, generatedFiles))"
    by (auto simp: bind_panic_eq_Inr)
  from g3 obtain grs3 r3 where vg: "validateGroups (?job binaries) 0 (Cases settings) grs (r2, g2') =
        Inr (grs3, r3, generatedFiles)"
    and res: "runResult = r3\<lparr>rr_Groups := grs3\<rparr>"
    by (auto simp: bind_panic_eq_Inr)
  have av: "addValidator w settings ?r0 binaries0 = Inr (Next binaries)" using av0 pl by simp
  have cb: "compileBinaries w binaries (?r0, []) = Inr (Next (r1, gf1))" using cb0 co by simp
  show ?thesis
    by (rule that [OF sup st av cb rg vg res])
qed

lemma gradeCases_MaxScore:
  assumes "gradeCases w run settings staged = Inr (Next (runResult, generatedFiles))"
  shows "rr_MaxScore runResult = run_MaxScore run"
proof -
  obtain binaries0 outputOnlyFiles meta binaries r1 g1 grs r2 g2 grs3 r3
    where "sb_Supported w" and "staged = Staged binaries0 outputOnlyFiles meta"
    and "addValidator w settings ((newRunResult run)\<lparr>rr_CompileMeta := meta\<rparr>) binaries0 =
             Inr (Next binaries)"
    and c: "compileBinaries w binaries ((newRunResult run)\<lparr>rr_CompileMeta := meta\<rparr>, []) =
             Inr (Next (r1, g1))"
    and rg: "runGroups \<lparr>j_world = w, j_run = run, j_settings = settings, j_binaries = binaries,
                      j_regularBinaryCount = length binaries0, j_outputOnlyFiles = outputOnlyFiles,
                      j_wallTimeLimit =
                        real_of_int (quo (sint (OverallWallTimeLimit (Limits settings))) 1000)\<rparr>
             0 (Cases settings) (r1\<lparr>rr_Verdict := ''OK''\<rparr>, g1) = Inr (grs, r2, g2)"
    and vg: "validateGroups \<lparr>j_world = w, j_run = run, j_settings = settings, j_binaries = binaries,
                      j_regularBinaryCount = length binaries0, j_outputOnlyFiles = outputOnlyFiles,
                      j_wallTimeLimit =
                        real_of_int (quo (sint (OverallWallTimeLimit (Limits settings))) 1000)\<rparr>
             0 (Cases settings) grs (r2, g2) = Inr (grs3, r3, generatedFiles)"
    and res: "runResult = r3\<lparr>rr_Groups := grs3\<rparr>"
    by (rule gradeCases_NextE [OF assms])
  have "rr_MaxScore r3 = rr_MaxScore ((newRunResult run)\<lparr>rr_CompileMeta := meta\<rparr>)"
    using compileBinaries_MaxScore [OF c] runGroups_MaxScore [OF rg] validateGroups_MaxScore [OF vg]
    by simp
  then show ?thesis by (simp add: res newRunResult_def)
qed

text \<open>
  What the validation loop does guarantee: a case that is validated with score 0 gets the
  verdict WA and clears \<open>correct\<close>, so in the result of \<open>Grade\<close> a group with a case of
  verdict WA has score 0, as long as the sandbox itself never reports WA.
\<close>

lemma validateCase_correct:
  assumes "validateCase job i j caseData caseResult (runResult, generatedFiles, correct, score) =
             Inr (caseResult', runResult', generatedFiles', correct', score')"
    and "cr_Verdict caseResult \<noteq> ''WA''"
  shows "(cr_Verdict caseResult' = ''WA'' \<longrightarrow> \<not> correct') \<and> (\<not> correct \<longrightarrow> \<not> correct')"
  using assms
  by (auto simp: validateCase_def Let_def bind_panic_eq_Inr split: if_splits prod.splits option.splits)

lemma validateCases_correct:
  assumes "validateCases job i j cases caseResults (runResult, generatedFiles, correct, score) =
             Inr (caseResults', runResult', generatedFiles', correct', score')"
    and "\<forall>c \<in> set caseResults. cr_Verdict c \<noteq> ''WA''"
  shows "((\<exists>c \<in> set caseResults'. cr_Verdict c = ''WA'') \<longrightarrow> \<not> correct') \<and> (\<not> correct \<longrightarrow> \<not> correct')"
  using assms
proof (induction cases arbitrary: j caseResults runResult generatedFiles correct score caseResults')
  case Nil
  then show ?case by auto
next
  case (Cons caseData cases)
  obtain caseResult crs0 where cr: "caseResults = caseResult # crs0"
    using Cons.prems by (cases caseResults) auto
  from Cons.prems(1) obtain cr1 r1 g1 correct1 score1 crs where
    a: "validateCase job i j caseData caseResult (runResult, generatedFiles, correct, score) =
          Inr (cr1, r1, g1, correct1, score1)"
    and b: "validateCases job i (Suc j) cases crs0 (r1, g1, correct1, score1) =
          Inr (crs, runResult', generatedFiles', correct', score')"
    and c: "caseResults' = cr1 # crs"
    by (auto simp: bind_panic_eq_Inr cr)
  have nw: "cr_Verdict caseResult \<noteq> ''WA''" "\<forall>c \<in> set crs0. cr_Verdict c \<noteq> ''WA''"
    using Cons.prems(2) cr by simp_all
  show ?case
    using validateCase_correct [OF a nw(1)] Cons.IH [OF b nw(2)] c by auto
qed

lemma validateGroups_WA:
  assumes "validateGroups job i groups groupResults (runResult, generatedFiles) =
             Inr (groupResults', runResult', generatedFiles')"
    and "\<forall>g \<in> set groupResults. gr_Score g = 0 \<and> (\<forall>c \<in> set (gr_Cases g). cr_Verdict c \<noteq> ''WA'')"
  shows "\<forall>g \<in> set groupResults'. (\<exists>c \<in> set (gr_Cases g). cr_Verdict c = ''WA'') \<longrightarrow> gr_Score g = 0"
  using assms
proof (induction groups arbitrary: i groupResults runResult generatedFiles groupResults')
  case Nil
  then show ?case by auto
next
  case (Cons g groups)
  obtain gr grs0 where gr: "groupResults = gr # grs0"
    using Cons.prems by (cases groupResults) auto
  from Cons.prems(1) obtain crs r1 g1 correct score r2 grs where
    a: "validateCases job i 0 (gs_Cases g) (gr_Cases gr) (runResult, generatedFiles, True, 0) =
          Inr (crs, r1, g1, correct, score)"
    and b: "validateGroups job (Suc i) groups grs0 (r2, g1) = Inr (grs, runResult', generatedFiles')"
    and c: "groupResults' =
             (if correct
              then gr\<lparr>gr_Cases := crs, gr_Score := score, gr_ContestScore := rr_MaxScore r1 * score\<rparr>
              else gr\<lparr>gr_Cases := crs\<rparr>) # grs"
    by (auto simp: bind_panic_eq_Inr gr Let_def split: if_splits)
  have h: "\<forall>c \<in> set (gr_Cases gr). cr_Verdict c \<noteq> ''WA''" "gr_Score gr = 0"
    "\<forall>g \<in> set grs0. gr_Score g = 0 \<and> (\<forall>c \<in> set (gr_Cases g). cr_Verdict c \<noteq> ''WA'')"
    using Cons.prems(2) gr by simp_all
  show ?case
    using validateCases_correct [OF a h(1)] Cons.IH [OF b h(3)] c h(2) by auto
qed


lemma receiveResults_chosen:
  assumes "receiveResults n results a = Inr a'"
    and "P (m_Verdict (chosenMetadata a))"
    and "\<forall>(runMeta, t) \<in> set results. \<forall>m. runMeta = Some m \<longrightarrow> P (m_Verdict m)"
  shows "P (m_Verdict (chosenMetadata a'))"
  using assms
proof (induction n results a rule: receiveResults.induct)
  case (1 results a)
  then show ?case by simp
next
  case (2 n a)
  then show ?case by simp
next
  case (3 n runMeta t results a)
  show ?case
  proof (cases "t = binaryProblemsetter")
    case True
    then show ?thesis using 3 by simp
  next
    case False
    then obtain m where m: "runMeta = Some m" using "3.prems"(1) by (cases runMeta) auto
    have pm: "P (m_Verdict m)" using "3.prems"(3) m by auto
    let ?a1 = "(if m_Verdict m \<noteq> ''OK'' \<and> chosenMetadataEmpty a
                then a\<lparr>chosenMetadata := m, chosenMetadataEmpty := False\<rparr> else a)"
    have "P (m_Verdict (chosenMetadata ?a1))" using pm "3.prems"(2) by simp
    then show ?thesis
      using "3.IH"(2) [OF False m refl] "3.prems"(1,3) False m
      by (simp add: Let_def)
  qed
qed

lemma runCase_verdict:
  assumes "runCase job i j caseData (runResult, generatedFiles) = Inr (caseResult, st')"
    and "\<forall>b m. fst (sb_Run (j_world job) i j b) = Some m \<longrightarrow> m_Verdict m \<noteq> ''WA''"
  shows "cr_Verdict caseResult \<noteq> ''WA''"
proof -
  have agg: "m_Verdict chosen \<noteq> ''WA''"
    if "aggregateCase (j_regularBinaryCount job)
          (map (\<lambda>bin. (fst (sb_Run (j_world job) i j bin), b_binaryType bin)) started) = Inr chosen"
    for started chosen
  proof -
    from that obtain a where
      r: "receiveResults (j_regularBinaryCount job)
            (map (\<lambda>bin. (fst (sb_Run (j_world job) i j bin), b_binaryType bin)) started)
            aggregation_start = Inr a"
      and c: "chosen = (chosenMetadata a)\<lparr>m_Time := totalTime a, m_WallTime := totalWallTime a,
                                            m_Memory := totalMemory a\<rparr>"
      by (auto simp: aggregateCase_def bind_panic_eq_Inr)
    have "m_Verdict (chosenMetadata a) \<noteq> ''WA''"
      by (rule receiveResults_chosen [OF r, where P = "\<lambda>v. v \<noteq> ''WA''"])
        (use assms(2) in \<open>auto simp: aggregation_start_def RunMetadata_of_Verdict_def\<close>)
    then show ?thesis by (simp add: c)
  qed
  show ?thesis
    using assms(1) agg
    by (auto simp: runCase_def Let_def bind_panic_eq_Inr RunMetadata_of_Verdict_def
        split: if_splits prod.splits)
qed


lemma runCases_verdict:
  assumes "runCases job i j cases st = Inr (caseResults, st')"
    and "\<forall>i j b m. fst (sb_Run (j_world job) i j b) = Some m \<longrightarrow> m_Verdict m \<noteq> ''WA''"
  shows "\<forall>c \<in> set caseResults. cr_Verdict c \<noteq> ''WA''"
  using assms(1)
proof (induction cases arbitrary: j st caseResults)
  case Nil
  then show ?case by auto
next
  case (Cons caseData cases)
  obtain r0 g0 where st: "st = (r0, g0)" by (cases st)
  from Cons.prems obtain cr st1 crs where
    a: "runCase job i j caseData (r0, g0) = Inr (cr, st1)"
    and b: "runCases job i (Suc j) cases st1 = Inr (crs, st')"
    and c: "caseResults = cr # crs"
    by (auto simp: bind_panic_eq_Inr st)
  have "cr_Verdict cr \<noteq> ''WA''" using runCase_verdict [OF a] assms(2) by blast
  then show ?case using Cons.IH [OF b] c by simp
qed

lemma runGroups_fresh:
  assumes "runGroups job i groups st = Inr (groupResults, st')"
    and "\<forall>i j b m. fst (sb_Run (j_world job) i j b) = Some m \<longrightarrow> m_Verdict m \<noteq> ''WA''"
  shows "\<forall>g \<in> set groupResults. gr_Score g = 0 \<and> (\<forall>c \<in> set (gr_Cases g). cr_Verdict c \<noteq> ''WA'')"
  using assms(1)
proof (induction groups arbitrary: i st groupResults)
  case Nil
  then show ?case by auto
next
  case (Cons g groups)
  from Cons.prems obtain crs r1 g1 grs where
    a: "runCases job i 0 (gs_Cases g) st = Inr (crs, r1, g1)"
    and b: "runGroups job (Suc i) groups (r1, g1) = Inr (grs, st')"
    and c: "groupResults = \<lparr>gr_Group = gs_Name g, gr_Score = 0, gr_ContestScore = 0,
                      gr_MaxScore = rr_MaxScore r1 * gs_Weight g, gr_Cases = crs\<rparr> # grs"
    by (auto simp: bind_panic_eq_Inr)
  show ?case
    using runCases_verdict [OF a assms(2)] Cons.IH [OF b] c by simp
qed


lemma Grade_WA_group_scores_zero:
  assumes g: "gradeCases w run settings staged = Inr (Next (runResult, generatedFiles))"
    and contract: "\<forall>i j b m. fst (sb_Run w i j b) = Some m \<longrightarrow> m_Verdict m \<noteq> ''WA''"
  shows "\<exists>res. Grade w run settings staged = Inr (res, uploadFiles w generatedFiles) \<and>
           (\<forall>g \<in> set (rr_Groups res).
              (\<exists>c \<in> set (gr_Cases g). cr_Verdict c = ''WA'') \<longrightarrow> gr_Score g = 0)"
proof -
  obtain binaries0 outputOnlyFiles meta binaries r1 g1 grs r2 g2 grs3 r3
    where "sb_Supported w" and "staged = Staged binaries0 outputOnlyFiles meta"
    and "addValidator w settings ((newRunResult run)\<lparr>rr_CompileMeta := meta\<rparr>) binaries0 =
             Inr (Next binaries)"
    and "compileBinaries w binaries ((newRunResult run)\<lparr>rr_CompileMeta := meta\<rparr>, []) =
             Inr (Next (r1, g1))"
    and rg: "runGroups \<lparr>j_world = w, j_run = run, j_settings = settings, j_binaries = binaries,
                      j_regularBinaryCount = length binaries0, j_outputOnlyFiles = outputOnlyFiles,
                      j_wallTimeLimit =
                        real_of_int (quo (sint (OverallWallTimeLimit (Limits settings))) 1000)\<rparr>
             0 (Cases settings) (r1\<lparr>rr_Verdict := ''OK''\<rparr>, g1) = Inr (grs, r2, g2)"
    and vg: "validateGroups \<lparr>j_world = w, j_run = run, j_settings = settings, j_binaries = binaries,
                      j_regularBinaryCount = length binaries0, j_outputOnlyFiles = outputOnlyFiles,
                      j_wallTimeLimit =
                        real_of_int (quo (sint (OverallWallTimeLimit (Limits settings))) 1000)\<rparr>
             0 (Cases settings) grs (r2, g2) = Inr (grs3, r3, generatedFiles)"
    and res: "runResult = r3\<lparr>rr_Groups := grs3\<rparr>"
    by (rule gradeCases_NextE [OF g])
  have fresh: "\<forall>g \<in> set grs. gr_Score g = 0 \<and> (\<forall>c \<in> set (gr_Cases g). cr_Verdict c \<noteq> ''WA'')"
    by (rule runGroups_fresh [OF rg]) (use contract in simp)
  have "\<forall>g \<in> set grs3. (\<exists>c \<in> set (gr_Cases g). cr_Verdict c = ''WA'') \<longrightarrow> gr_Score g = 0"
    by (rule validateGroups_WA [OF vg fresh])
  moreover have "rr_Groups (finalVerdict runResult) = grs3"
    by (simp add: finalVerdict_def res)
  moreover have "Grade w run settings staged = Inr (finalVerdict runResult, uploadFiles w generatedFiles)"
    using g by (simp add: Grade_def)
  ultimately show ?thesis by simp
qed

text \<open>
  C5. When \<open>Grade\<close> gets past the validation loop with the run result \<open>runResult\<close>, it returns
  that result with the overall verdict rewritten: OK becomes AC with score 1 and contest
  score \<open>MaxScore\<close> (the maximum score of the run), PA with a total score of exactly 0 becomes
  WA, and any other result is returned as it is.
\<close>

theorem Grade_final_verdict:
  assumes "gradeCases w run settings staged = Inr (Next (runResult, generatedFiles))"
  shows "\<exists>res. Grade w run settings staged = Inr (res, uploadFiles w generatedFiles) \<and>
           (rr_Verdict runResult = ''OK'' \<longrightarrow>
              rr_Verdict res = ''AC'' \<and> rr_Score res = 1 \<and> rr_ContestScore res = run_MaxScore run) \<and>
           (rr_Verdict runResult = ''PA'' \<and> rr_Score runResult = 0 \<longrightarrow> rr_Verdict res = ''WA'') \<and>
           (rr_Verdict runResult \<noteq> ''OK'' \<and> \<not> (rr_Verdict runResult = ''PA'' \<and> rr_Score runResult = 0) \<longrightarrow>
              res = runResult) \<and>
           rr_MaxScore res = run_MaxScore run \<and> rr_Groups res = rr_Groups runResult"
  using assms gradeCases_MaxScore [OF assms] by (auto simp: Grade_def finalVerdict_def)

lemma sample_graded:
  "\<exists>runResult generatedFiles.
     gradeCases (sample_world [''OK'', ''OK''] [1, 1]) sample_run sample_settings sample_staging =
       Inr (Next (runResult, generatedFiles)) \<and> rr_Verdict runResult = ''OK''"
  "\<exists>runResult generatedFiles.
     gradeCases (sample_world [''OK'', ''OK''] [1, 0]) sample_run sample_settings sample_staging =
       Inr (Next (runResult, generatedFiles)) \<and> rr_Verdict runResult = ''PA'' \<and> rr_Score runResult = 0"
  by (simp_all add: grade_eval)

theorem Grade_final_verdict_witness:
  "(\<exists>res. Grade (sample_world [''OK'', ''OK''] [1, 1]) sample_run sample_settings sample_staging =
            Inr (res, None) \<and>
          rr_Verdict res = ''AC'' \<and> rr_Score res = 1 \<and> rr_ContestScore res = 100) \<and>
   (\<exists>res. Grade (sample_world [''OK'', ''OK''] [1, 0]) sample_run sample_settings sample_staging =
            Inr (res, None) \<and>
          rr_Verdict res = ''WA'')"
proof -
  obtain r1 g1 where a: "gradeCases (sample_world [''OK'', ''OK''] [1, 1]) sample_run sample_settings
      sample_staging = Inr (Next (r1, g1))" and v1: "rr_Verdict r1 = ''OK''"
    using sample_graded(1) by blast
  obtain r2 g2 where b: "gradeCases (sample_world [''OK'', ''OK''] [1, 0]) sample_run sample_settings
      sample_staging = Inr (Next (r2, g2))" and v2: "rr_Verdict r2 = ''PA''" "rr_Score r2 = 0"
    using sample_graded(2) by blast
  have u: "uploadFiles (sample_world vs ss) files = None" for vs ss files
    by (simp add: sample_world_def)
  have m: "run_MaxScore sample_run = 100" by (simp add: sample_run_def)
  from Grade_final_verdict [OF a] v1 have
    "\<exists>res. Grade (sample_world [''OK'', ''OK''] [1, 1]) sample_run sample_settings sample_staging =
            Inr (res, None) \<and>
          rr_Verdict res = ''AC'' \<and> rr_Score res = 1 \<and> rr_ContestScore res = 100"
    unfolding u m by blast
  moreover from Grade_final_verdict [OF b] v2 have
    "\<exists>res. Grade (sample_world [''OK'', ''OK''] [1, 0]) sample_run sample_settings sample_staging =
            Inr (res, None) \<and> rr_Verdict res = ''WA''"
    unfolding u by blast
  ultimately show ?thesis by blast
qed


end
